theory Spec2Isabelle
  imports Complex_Main
begin

section \<open>Errors and Python slicing\<close>

text \<open>
  The routines of \<^verbatim>\<open>utils.py\<close> raise nothing themselves; every failure comes out of a
  library call. \<open>ValueError\<close> is raised while the graph is built (a negative dimension
  in a \<^verbatim>\<open>TensorShape\<close>, a shape invariant that does not fit, a reshape whose sizes do
  not agree); \<open>InvalidArgument\<close> is what a linear-algebra kernel raises when it runs.
\<close>

datatype error = ValueError | InvalidArgument

text \<open>A slice bound \<open>i\<close> on a list of length \<open>n\<close>: negative bounds count from the end,
  and every bound is clamped into \<open>0..n\<close>.\<close>

definition slice_bound :: "nat \<Rightarrow> int \<Rightarrow> nat" where
  "slice_bound n i = (if i < 0 then nat (int n + i) else min n (nat i))"

definition py_slice :: "int \<Rightarrow> int \<Rightarrow> 'a list \<Rightarrow> 'a list" where
  "py_slice a b xs =
     (let lo = slice_bound (length xs) a; hi = slice_bound (length xs) b
      in take (hi - lo) (drop lo xs))"

section \<open>The Hankel tensor\<close>

text \<open>
  A tensor of shape \<open>(batch, L, feat)\<close> is a list (batch) of lists (time) of feature
  rows; the feature row is kept abstract. \<open>shape1\<close> reads \<^verbatim>\<open>T.shape[1]\<close> off the first
  batch element.
\<close>

definition shape1 :: "'a list list \<Rightarrow> nat" where
  "shape1 T = (case T of [] \<Rightarrow> 0 | Tb # _ \<Rightarrow> length Tb)"

definition shape2 :: "'a list list list \<Rightarrow> nat" where
  "shape2 T = (case T of [] \<Rightarrow> 0 | Tb # _ \<Rightarrow> shape1 Tb)"

text \<open>\<^verbatim>\<open>T[:, tf.newaxis, i:K+i]\<close>: one window per batch element, in a new axis of length 1.\<close>

definition window :: "'a list list \<Rightarrow> int \<Rightarrow> int \<Rightarrow> 'a list list list" where
  "window T i K = map (\<lambda>Tb. [py_slice i (K + i) Tb]) T"

text \<open>\<^verbatim>\<open>tf.concat([t, w], axis=1)\<close> on two tensors with the same batch.\<close>

definition concat_axis1 :: "'a list list \<Rightarrow> 'a list list \<Rightarrow> 'a list list" where
  "concat_axis1 t w = map2 (@) t w"

text \<open>The \<^verbatim>\<open>tf.while_loop\<close> of \<^verbatim>\<open>hankel\<close>: \<^verbatim>\<open>cond\<close> is \<open>i \<le> L - K\<close>, \<^verbatim>\<open>body\<close> appends the
  window that starts at \<open>i\<close>.\<close>

function hankel_loop ::
  "'a list list \<Rightarrow> int \<Rightarrow> int \<Rightarrow> int \<Rightarrow> 'a list list list \<Rightarrow> 'a list list list" where
  "hankel_loop T L K i t =
     (if i \<le> L - K then hankel_loop T L K (i + 1) (concat_axis1 t (window T i K)) else t)"
  by pat_completeness auto
termination
  by (relation "measure (\<lambda>(T, L, K, i, t). nat (L - K + 1 - i))") auto

declare hankel_loop.simps [simp del]

text \<open>
  \<^verbatim>\<open>hankel\<close> itself. The initial window \<^verbatim>\<open>T[:, tf.newaxis, :K]\<close> is taken first; then the
  arguments of \<^verbatim>\<open>tf.while_loop\<close> are evaluated, among them the shape invariant
  \<^verbatim>\<open>TensorShape([T.shape[0], None, K, T.shape[-1]])\<close>, whose constructor rejects a negative
  dimension. The source has no check of \<open>K\<close> of its own.

  The flag \<open>enforce\<close> says whether the library holds the shape the loop variable has on
  entry against the invariant. \<^verbatim>\<open>hankel\<close> is decorated with \<^verbatim>\<open>tf.function\<close>, so its loop is
  built by the single-operation implementation of \<^verbatim>\<open>tf.while_loop\<close>, which takes the
  invariant as the shape on entry and checks only what the body returns (here a window
  whose length is not known when the graph is built): the program is \<open>hankel False\<close>.
  \<open>hankel True\<close> is the loop of the older graph mode, which rejects an initial window whose
  length is not \<open>K\<close>; the results that hold for both are stated for both.
\<close>

definition hankel :: "bool \<Rightarrow> 'a list list \<Rightarrow> int \<Rightarrow> error + 'a list list list" where
  "hankel enforce T K =
     (let L = int (shape1 T);
          t = window T 0 K
      in if K < 0 then Inl ValueError
         else if enforce \<and> (\<exists>w \<in> set (concat t). int (length w) \<noteq> K) then Inl ValueError
         else Inr (hankel_loop T L K 1 t))"

section \<open>Numbers, matrices and the library\<close>

text \<open>
  Floating-point numbers are idealised as exact real and complex numbers, with one
  exception: a division by zero does not raise in the library, it yields an infinity or
  a NaN. A number is therefore a \<open>complex option\<close>, \<open>None\<close> standing for an entry that
  is not a finite number; \<open>None\<close> is absorbing in every operation.
\<close>

type_synonym num = "complex option"

definition fmul :: "num \<Rightarrow> num \<Rightarrow> num" where
  "fmul a b = (case (a, b) of (Some x, Some y) \<Rightarrow> Some (x * y) | _ \<Rightarrow> None)"

definition fadd :: "num \<Rightarrow> num \<Rightarrow> num" where
  "fadd a b = (case (a, b) of (Some x, Some y) \<Rightarrow> Some (x + y) | _ \<Rightarrow> None)"

definition fdiv :: "num \<Rightarrow> num \<Rightarrow> num" where
  "fdiv a b =
     (case (a, b) of (Some x, Some y) \<Rightarrow> if y = 0 then None else Some (x / y) | _ \<Rightarrow> None)"

definition fcnj :: "num \<Rightarrow> num" where
  "fcnj a = map_option cnj a"

definition fsqrt :: "num \<Rightarrow> num" where
  "fsqrt a = map_option csqrt a"

definition fsum :: "num list \<Rightarrow> num" where
  "fsum xs = foldr fadd xs (Some 0)"

text \<open>\<^verbatim>\<open>tf.cast(1 / s, dtype)\<close> on one singular value: the reciprocal, cast to complex.\<close>

definition recip :: "real \<Rightarrow> num" where
  "recip s = (if s = 0 then None else Some (complex_of_real (1 / s)))"

text \<open>A matrix carries its static shape, so that a matrix with no rows still has a
  number of columns.\<close>

datatype 'a mat = Mat (nrows: nat) (ncols: nat) (rows: "'a list list")

definition entry :: "'a mat \<Rightarrow> nat \<Rightarrow> nat \<Rightarrow> 'a" where
  "entry A i j = rows A ! i ! j"

definition wf_mat :: "'a mat \<Rightarrow> bool" where
  "wf_mat A = (length (rows A) = nrows A \<and> list_all (\<lambda>r. length r = ncols A) (rows A))"

definition fin :: "complex mat \<Rightarrow> num mat" where
  "fin A = Mat (nrows A) (ncols A) (map (map Some) (rows A))"

definition build :: "nat \<Rightarrow> nat \<Rightarrow> (nat \<Rightarrow> nat \<Rightarrow> 'a) \<Rightarrow> 'a mat" where
  "build nr nc f = Mat nr nc (map (\<lambda>i. map (\<lambda>j. f i j) [0..<nc]) [0..<nr])"

definition adjoint :: "num mat \<Rightarrow> num mat" where
  "adjoint A = build (ncols A) (nrows A) (\<lambda>i j. fcnj (entry A j i))"

definition matrix_transpose :: "'a mat \<Rightarrow> 'a mat" where
  "matrix_transpose A = build (ncols A) (nrows A) (\<lambda>i j. entry A j i)"

definition then_do :: "error + 'a \<Rightarrow> ('a \<Rightarrow> error + 'b) \<Rightarrow> error + 'b" where
  "then_do m f = (case m of Inl e \<Rightarrow> Inl e | Inr x \<Rightarrow> f x)"

text \<open>The operator \<^verbatim>\<open>@\<close>: the inner dimensions must agree.\<close>

definition mprod :: "num mat \<Rightarrow> num mat \<Rightarrow> num mat" where
  "mprod A B =
     build (nrows A) (ncols B)
       (\<lambda>i j. fsum (map (\<lambda>k. fmul (entry A i k) (entry B k j)) [0..<ncols A]))"

definition matmul :: "num mat \<Rightarrow> num mat \<Rightarrow> error + num mat" where
  "matmul A B = (if ncols A \<noteq> nrows B then Inl ValueError else Inr (mprod A B))"

text \<open>Broadcasting of an elementwise operation: two dimensions fit when they are equal
  or one of them is 1, and a dimension of 1 is stretched.\<close>

definition bdim :: "nat \<Rightarrow> nat \<Rightarrow> nat option" where
  "bdim a b = (if a = b then Some a else if a = 1 then Some b else if b = 1 then Some a
               else None)"

definition broadcast :: "('a \<Rightarrow> 'b \<Rightarrow> 'c) \<Rightarrow> 'a mat \<Rightarrow> 'b mat \<Rightarrow> error + 'c mat" where
  "broadcast f A B =
     (case (bdim (nrows A) (nrows B), bdim (ncols A) (ncols B)) of
        (Some nr, Some nc) \<Rightarrow>
          Inr (build nr nc (\<lambda>i j.
                 f (entry A (if nrows A = 1 then 0 else i) (if ncols A = 1 then 0 else j))
                   (entry B (if nrows B = 1 then 0 else i) (if ncols B = 1 then 0 else j))))
      | _ \<Rightarrow> Inl ValueError)"

text \<open>A vector of shape \<open>(r,)\<close> broadcasts against a matrix as a single row.\<close>

definition row_vec :: "'a list \<Rightarrow> 'a mat" where
  "row_vec w = Mat 1 (length w) [w]"

text \<open>\<^verbatim>\<open>A[:, :ind]\<close> on a matrix.\<close>

definition take_cols :: "nat \<Rightarrow> 'a mat \<Rightarrow> 'a mat" where
  "take_cols ind A = Mat (nrows A) (min ind (ncols A)) (map (take ind) (rows A))"

text \<open>\<^verbatim>\<open>tf.reduce_sum(tf.cast(s > eps, tf.int32))\<close>.\<close>

definition count_above :: "real \<Rightarrow> real list \<Rightarrow> nat" where
  "count_above eps s = sum_list (map (\<lambda>x. if eps < x then 1 else 0) s)"

text \<open>
  \<^verbatim>\<open>tf.linalg.svd\<close>, \<^verbatim>\<open>tf.linalg.eig\<close> and \<^verbatim>\<open>tf.linalg.inv\<close> are library kernels, not code
  of this repository: they are parameters of the model. Each may raise. \<open>lib_svd\<close>
  returns the singular values and the factors \<open>u\<close>, \<open>v\<close> (with \<open>X = u diag(s) v\<^sup>H\<close>),
  \<open>lib_eig\<close> the eigenvalues and the matrix of right eigenvectors.
\<close>

record linalg =
  lib_svd :: "complex mat \<Rightarrow> error + (real list \<times> complex mat \<times> complex mat)"
  lib_eig :: "num mat \<Rightarrow> error + (num list \<times> num mat)"
  lib_inv :: "num mat \<Rightarrow> error + num mat"

section \<open>Reshaping\<close>

text \<open>
  \<^verbatim>\<open>tf.reshape\<close> keeps the row-major sequence of the entries and regroups it. One
  dimension may be given as \<open>-1\<close> and is then inferred; any other negative dimension,
  or a total size that does not match, is an error.
\<close>

definition reshape_dims :: "nat \<Rightarrow> int list \<Rightarrow> error + nat list" where
  "reshape_dims sz ds =
     (if (\<exists>d \<in> set ds. d < - 1) \<or> 1 < length (filter (\<lambda>d. d = - 1) ds) then Inl ValueError
      else if - 1 \<in> set ds then
        (let p = nat (prod_list (filter (\<lambda>d. d \<noteq> - 1) ds))
         in if p = 0 \<or> sz mod p \<noteq> 0 then Inl ValueError
            else Inr (map (\<lambda>d. if d = - 1 then sz div p else nat d) ds))
      else if nat (prod_list ds) = sz then Inr (map nat ds)
      else Inl ValueError)"

definition regroup :: "nat \<Rightarrow> nat \<Rightarrow> 'a list \<Rightarrow> 'a list list" where
  "regroup d0 d1 xs = map (\<lambda>i. take d1 (drop (i * d1) xs)) [0..<d0]"

definition reshape2 :: "'a list \<Rightarrow> int \<Rightarrow> int \<Rightarrow> error + 'a mat" where
  "reshape2 xs d0 d1 =
     then_do (reshape_dims (length xs) [d0, d1])
       (\<lambda>ds. case ds of
                [a, b] \<Rightarrow> Inr (Mat a b (regroup a b xs))
              | _ \<Rightarrow> Inl ValueError)"

definition reshape3 ::
  "'a list \<Rightarrow> int \<Rightarrow> int \<Rightarrow> int \<Rightarrow> error + ((nat \<times> nat \<times> nat) \<times> 'a list list list)" where
  "reshape3 xs d0 d1 d2 =
     then_do (reshape_dims (length xs) [d0, d1, d2])
       (\<lambda>ds. case ds of
                [a, b, c] \<Rightarrow> Inr ((a, b, c), map (regroup b c) (regroup a (b * c) xs))
              | _ \<Rightarrow> Inl ValueError)"

text \<open>\<^verbatim>\<open>tf.transpose(t, (2, 0, 1))\<close> on a tensor of shape \<open>(d0, d1, d2)\<close>.\<close>

definition transpose_201 :: "nat \<times> nat \<times> nat \<Rightarrow> 'a list list list \<Rightarrow> 'a list list list" where
  "transpose_201 d t =
     (case d of (d0, d1, d2) \<Rightarrow>
        map (\<lambda>k. map (\<lambda>i. map (\<lambda>j. t ! i ! j ! k) [0..<d1]) [0..<d0]) [0..<d2])"

section \<open>Dynamic mode decomposition\<close>

text \<open>Lines 73 to 86 of \<^verbatim>\<open>dmd\<close>: the design matrices \<open>X_resh\<close> and \<open>Y_resh\<close>.\<close>

definition design ::
  "bool \<Rightarrow> complex list list list list \<Rightarrow> int \<Rightarrow> error + (complex mat \<times> complex mat)" where
  "design enforce trajectories K =
     (let bs = int (length trajectories);
          n = int (shape1 trajectories);
          m = int (shape2 trajectories)
      in then_do (reshape3 (concat (concat (concat trajectories))) bs n (m ^ 2)) (\<lambda>(_, t).
         then_do (hankel enforce t K) (\<lambda>t.
         then_do (reshape3 (concat (concat (concat t))) bs (n - K + 1) (K * m ^ 2)) (\<lambda>(d, t).
           let t = transpose_201 d t;
               X = map (map (py_slice 0 (- 1))) t;
               Y = map (map (drop 1)) t
           in then_do (reshape2 (concat (concat X)) (K * m ^ 2) (bs * (n - K))) (\<lambda>X_resh.
              then_do (reshape2 (concat (concat Y)) (K * m ^ 2) (bs * (n - K))) (\<lambda>Y_resh.
                Inr (X_resh, Y_resh)))))))"

text \<open>Lines 88 to 103: truncated SVD, reduced operator, its eigendecomposition and the
  lift to the full space.\<close>

definition modes ::
  "linalg \<Rightarrow> complex mat \<Rightarrow> complex mat \<Rightarrow> real \<Rightarrow> error + (num list \<times> num mat \<times> num mat)" where
  "modes lib X_resh Y_resh eps =
     then_do (lib_svd lib X_resh) (\<lambda>(lmbd, u, v).
       let ind = count_above eps lmbd;
           lmbd = take ind lmbd;
           lmbd_inv = map recip lmbd;
           u = take_cols ind u;
           v = take_cols ind v
       in then_do (matmul (adjoint (fin u)) (fin Y_resh)) (\<lambda>uY.
          then_do (broadcast fmul (fin v) (row_vec lmbd_inv)) (\<lambda>vl.
          then_do (matmul uY vl) (\<lambda>T_tilda.
          then_do (lib_eig lib T_tilda) (\<lambda>(eig_vals, right).
          then_do (lib_inv lib right) (\<lambda>right_inv.
            let left = adjoint right_inv
            in then_do (matmul (fin Y_resh) vl) (\<lambda>Yvl.
               then_do (matmul Yvl right) (\<lambda>right.
               then_do (matmul (fin u) left) (\<lambda>left.
                 Inr (eig_vals, right, left))))))))))"

text \<open>Lines 104 to 108: the normalisation of each pair of modes.\<close>

definition normalize_modes :: "num mat \<Rightarrow> num mat \<Rightarrow> error + (num mat \<times> num mat)" where
  "normalize_modes right left =
     then_do (broadcast fmul (adjoint left) (matrix_transpose right)) (\<lambda>norm.
       let norm = map fsum (rows norm);
           norm = map fsqrt norm
       in then_do (broadcast fdiv right (row_vec norm)) (\<lambda>right.
          then_do (broadcast fdiv left (row_vec (map fcnj norm))) (\<lambda>left.
            Inr (right, left))))"

definition dmd ::
  "linalg \<Rightarrow> bool \<Rightarrow> complex list list list list \<Rightarrow> int \<Rightarrow> real \<Rightarrow>
     error + (num list \<times> num mat \<times> num mat)" where
  "dmd lib enforce trajectories K eps =
     then_do (design enforce trajectories K) (\<lambda>(X_resh, Y_resh).
     then_do (modes lib X_resh Y_resh eps) (\<lambda>(eig_vals, right, left).
     then_do (normalize_modes right left) (\<lambda>(right, left).
       Inr (eig_vals, right, left))))"

section \<open>Regression and pseudoinverse\<close>

text \<open>A tensor of any rank, for the arguments of shape \<open>(n, ...)\<close> of
  \<^verbatim>\<open>solve_regression\<close>.\<close>

datatype 'a tensor = Scalar 'a | Array "'a tensor list"

fun flat :: "'a tensor \<Rightarrow> 'a list" where
  "flat (Scalar x) = [x]"
| "flat (Array ts) = concat (map flat ts)"



text \<open>\<^verbatim>\<open>pinv\<close> on a single matrix (rank 2).\<close>

definition pinv :: "linalg \<Rightarrow> complex mat \<Rightarrow> real \<Rightarrow> error + num mat" where
  "pinv lib X eps =
     then_do (lib_svd lib X) (\<lambda>(s, u, v).
       let ind = count_above eps s;
           u = take_cols ind u;
           v = take_cols ind v;
           s = take ind s;
           s_inv = map recip s
       in then_do (broadcast fmul (fin v) (row_vec s_inv)) (\<lambda>vs.
            matmul vs (adjoint (fin u))))"

text \<open>
  The same lines of \<^verbatim>\<open>pinv\<close> read on an input of rank 3, a batch of matrices, which the
  docstring admits (\<^verbatim>\<open>X: tensor of shape (..., a, b)\<close>). The SVD is taken per matrix; the
  count \<open>ind\<close> is summed over the whole batch; \<^verbatim>\<open>u[:, :ind]\<close> and \<^verbatim>\<open>v[:, :ind]\<close> now cut
  the second axis, the rows of every matrix; \<^verbatim>\<open>s[:ind]\<close> cuts the batch axis; and
  \<^verbatim>\<open>v * s_inv\<close> broadcasts the \<open>(batch, k)\<close> array \<open>s_inv\<close> against the rows of every
  matrix of \<open>v\<close>.
\<close>

fun collect :: "(error + 'a) list \<Rightarrow> error + 'a list" where
  "collect [] = Inr []"
| "collect (x # xs) = then_do x (\<lambda>y. then_do (collect xs) (\<lambda>ys. Inr (y # ys)))"

definition take_rows :: "nat \<Rightarrow> 'a mat \<Rightarrow> 'a mat" where
  "take_rows ind A = Mat (min ind (nrows A)) (ncols A) (take ind (rows A))"

definition pinv_batch :: "linalg \<Rightarrow> complex mat list \<Rightarrow> real \<Rightarrow> error + num mat list" where
  "pinv_batch lib X eps =
     then_do (collect (map (lib_svd lib) X)) (\<lambda>suv.
       let s = map fst suv;
           u = map (\<lambda>(_, u, _). u) suv;
           v = map (\<lambda>(_, _, v). v) suv;
           ind = sum_list (map (count_above eps) s);
           u = map (take_rows ind) u;
           v = map (take_rows ind) v;
           k = shape1 s;
           s = take ind s;
           s_inv = Mat (length s) k (map (map recip) s)
       in then_do (collect (map (\<lambda>vi. broadcast fmul (fin vi) s_inv) v)) (\<lambda>vs.
            collect (map2 (\<lambda>vsi ui. matmul vsi (adjoint (fin ui))) vs u)))"

section \<open>Shapes and auxiliary notions of the proofs\<close>

text \<open>Rectangular nested lists: a tensor of rank 2, 3 or 4 with the given shape.\<close>

definition rect2 :: "nat \<Rightarrow> nat \<Rightarrow> 'a list list \<Rightarrow> bool" where
  "rect2 a b T = (length T = a \<and> (\<forall>x \<in> set T. length x = b))"

definition rect3 :: "nat \<Rightarrow> nat \<Rightarrow> nat \<Rightarrow> 'a list list list \<Rightarrow> bool" where
  "rect3 a b c T = (length T = a \<and> (\<forall>x \<in> set T. rect2 b c x))"

definition rect4 :: "nat \<Rightarrow> nat \<Rightarrow> nat \<Rightarrow> nat \<Rightarrow> 'a list list list list \<Rightarrow> bool" where
  "rect4 a b c d T = (length T = a \<and> (\<forall>x \<in> set T. rect3 b c d x))"

text \<open>The diagonal matrix \<open>diag(w)\<close> of the formulas of the specification, and singular
  values in descending order, as the library returns them.\<close>

definition diag :: "num list \<Rightarrow> num mat" where
  "diag w = build (length w) (length w) (\<lambda>i j. if i = j then w ! i else Some 0)"


text \<open>The first \<open>i\<close> windows of every batch element, as the loop of \<^verbatim>\<open>hankel\<close> has them after
  \<open>i - 1\<close> iterations.\<close>

definition windows_upto :: "'a list list \<Rightarrow> int \<Rightarrow> nat \<Rightarrow> 'a list list list" where
  "windows_upto T K i = map (\<lambda>Tb. map (\<lambda>j. py_slice (int j) (K + int j) Tb) [0..<i]) T"

text \<open>The delay embedding (window \<open>j\<close> of trajectory \<open>b\<close>, flattened) and the matrix whose
  column \<open>b * w + i\<close> is window \<open>off + i\<close> of trajectory \<open>b\<close>.\<close>

definition embedded :: "'a list list list list \<Rightarrow> nat \<Rightarrow> nat \<Rightarrow> 'a list list list" where
  "embedded T kk w =
     map (\<lambda>Tb. map (\<lambda>j. concat (take kk (drop j (map concat Tb)))) [0..<Suc w]) T"

definition samples :: "nat \<Rightarrow> nat \<Rightarrow> nat \<Rightarrow> nat \<Rightarrow> 'a list list list \<Rightarrow> 'a mat" where
  "samples off F bs w t =
     Mat F (bs * w)
       (map (\<lambda>p. concat (map (\<lambda>b. map (\<lambda>i. t ! b ! (off + i) ! p) [0..<w]) [0..<bs])) [0..<F])"

text \<open>\<open>\<Sum>\<^sub>f conj(L[f, j]) R[f, j]\<close>, the quantity whose square root normalises mode \<open>j\<close>.\<close>

definition mode_norm :: "complex mat \<Rightarrow> complex mat \<Rightarrow> nat \<Rightarrow> complex" where
  "mode_norm R L j = (\<Sum>f = 0..<nrows R. cnj (entry L f j) * entry R f j)"

text \<open>
  The formulas of the specification, entry by entry, for the first \<open>r\<close> singular values and
  the first \<open>r\<close> columns of \<open>U\<close> and \<open>V\<close>: \<open>spec_reduced\<close> is \<open>U\<^sup>H Y V diag(1/\<sigma>)\<close>, of shape
  \<open>r \<times> r\<close>; \<open>spec_right\<close> is \<open>Y V diag(1/\<sigma>) R_tilda\<close>; \<open>spec_left\<close> is \<open>U (R_inv)\<^sup>H\<close>. Where a
  reciprocal \<open>1/\<sigma>\<close> is taken of 0 the entries it reaches are not finite numbers.
\<close>

definition spec_reduced ::
  "complex mat \<Rightarrow> complex mat \<Rightarrow> complex mat \<Rightarrow> real list \<Rightarrow> nat \<Rightarrow> num mat" where
  "spec_reduced U Y V sigma r =
     Mat r r
       (map (\<lambda>i. map (\<lambda>j. if sigma ! j = 0 then None
                            else Some (\<Sum>c\<leftarrow>[0..<ncols Y].
                                         (\<Sum>f\<leftarrow>[0..<nrows Y]. cnj (entry U f i) * entry Y f c) *
                                         (entry V c j * complex_of_real (1 / sigma ! j))))
                   [0..<r])
            [0..<r])"

definition spec_right ::
  "complex mat \<Rightarrow> complex mat \<Rightarrow> real list \<Rightarrow> nat \<Rightarrow> complex mat \<Rightarrow> num mat" where
  "spec_right Y V sigma r R_tilda =
     Mat (nrows Y) (ncols R_tilda)
       (map (\<lambda>f. map (\<lambda>j. if 0 \<in> set (take r sigma) then None
                            else Some (\<Sum>k\<leftarrow>[0..<r].
                                         (\<Sum>c\<leftarrow>[0..<ncols Y].
                                            entry Y f c *
                                            (entry V c k * complex_of_real (1 / sigma ! k))) *
                                         entry R_tilda k j))
                   [0..<ncols R_tilda])
            [0..<nrows Y])"

definition spec_left :: "complex mat \<Rightarrow> nat \<Rightarrow> complex mat \<Rightarrow> num mat" where
  "spec_left U r R_inv =
     Mat (nrows U) (nrows R_inv)
       (map (\<lambda>f. map (\<lambda>j. Some (\<Sum>k\<leftarrow>[0..<r]. entry U f k * cnj (entry R_inv j k)))
                   [0..<nrows R_inv])
            [0..<nrows U])"


section \<open>Instances of the library\<close>

text \<open>
  \<open>lib_scalar\<close> is exact on \<open>1 \<times> 1\<close> matrices: the SVD of \<open>(x)\<close> is \<open>(x / |x|) |x| (1)\<close>,
  the eigenvector of \<open>(t)\<close> is \<open>(1)\<close>, and the inverse of \<open>(0)\<close> raises.
  \<open>lib_rank_one\<close> adds the SVD of the matrix \<open>a a\<^sup>T\<close> with \<open>a = (4, 3\<i>)\<close>, whose singular
  values are 25 and 0.
  \<open>lib_defective\<close> adds the SVD of a \<open>4 \<times> 2\<close> matrix with orthonormal columns and the
  eigendecomposition of the defective matrix \<open>((0, 9/16), (1, 3\<i>/2))\<close>: the eigenvalue
  \<open>3\<i>/4\<close> twice, with its only eigenvector of norm 1, \<open>(-3\<i>/5, 4/5)\<close>, in both columns;
  its inverse raises on every singular matrix.
\<close>

definition lib_scalar :: linalg where
  "lib_scalar =
     \<lparr>lib_svd = (\<lambda>A. case rows A of
                       [[x]] \<Rightarrow> Inr ([cmod x],
                                     Mat 1 1 [[if x = 0 then 1 else x / complex_of_real (cmod x)]],
                                     Mat 1 1 [[1]])
                     | _ \<Rightarrow> Inl InvalidArgument),
      lib_eig = (\<lambda>A. case rows A of
                       [[t]] \<Rightarrow> Inr ([t], Mat 1 1 [[Some 1]])
                     | _ \<Rightarrow> Inl InvalidArgument),
      lib_inv = (\<lambda>A. case rows A of
                       [[Some x]] \<Rightarrow> if x = 0 then Inl InvalidArgument
                                     else Inr (Mat 1 1 [[Some (1 / x)]])
                     | _ \<Rightarrow> Inl InvalidArgument)\<rparr>"

definition lib_rank_one :: linalg where
  "lib_rank_one =
     lib_scalar\<lparr>lib_svd :=
       (\<lambda>A. if A = Mat 2 2 [[16, 12 * \<i>], [12 * \<i>, - 9]]
             then Inr ([25, 0],
                       Mat 2 2 [[4 / 5, 3 * \<i> / 5], [3 * \<i> / 5, 4 / 5]],
                       Mat 2 2 [[4 / 5, - (3 * \<i> / 5)], [- (3 * \<i> / 5), 4 / 5]])
             else lib_svd lib_scalar A)\<rparr>"


section \<open>Properties of the Hankel tensor\<close>

lemma py_slice_in_range:
  assumes "j + K \<le> length xs"
  shows "py_slice (int j) (int K + int j) xs = take K (drop j xs)"
  using assms by (simp add: py_slice_def slice_bound_def Let_def nat_add_distrib)

lemma concat_axis1_windows:
  "concat_axis1 (windows_upto T K i) (window T (int i) K) = windows_upto T K (Suc i)"
  by (induction T) (simp_all add: concat_axis1_def windows_upto_def window_def)

lemma hankel_loop_windows:
  "hankel_loop T L K (int i) (windows_upto T K i) =
     windows_upto T K (max i (nat (L - K + 1)))"
proof (induction "nat (L - K + 1) - i" arbitrary: i)
  case 0
  then have "\<not> int i \<le> L - K" by linarith
  moreover have "max i (nat (L - K + 1)) = i" using 0 by linarith
  ultimately show ?case by (simp add: hankel_loop.simps)
next
  case (Suc d)
  then have le: "int i \<le> L - K" by linarith
  have d: "d = nat (L - K + 1) - Suc i" using Suc.hyps(2) by linarith
  have "hankel_loop T L K (int i) (windows_upto T K i) =
        hankel_loop T L K (int (Suc i)) (windows_upto T K (Suc i))"
    using le by (subst hankel_loop.simps) (simp add: concat_axis1_windows add.commute)
  also have "\<dots> = windows_upto T K (max (Suc i) (nat (L - K + 1)))"
    using Suc.hyps(1) [OF d] .
  also have "max (Suc i) (nat (L - K + 1)) = max i (nat (L - K + 1))"
    using le by linarith
  finally show ?case .
qed

lemma window_0: "window T 0 K = windows_upto T K 1"
  by (simp add: window_def windows_upto_def)

lemma hankel_loop_from_1:
  "hankel_loop T L K 1 (window T 0 K) = windows_upto T K (max 1 (nat (L - K + 1)))"
  using hankel_loop_windows [of T L K 1] by (simp add: window_0)

lemma windows_upto_nth:
  assumes "b < length T" "i < n" "i + k < length (T ! b)" "i + nat K \<le> length (T ! b)"
    "0 \<le> K" "k < nat K"
  shows "length (windows_upto T K n ! b ! i) = nat K"
    and "windows_upto T K n ! b ! i ! k = T ! b ! (i + k)"
proof -
  have "py_slice (int i) (K + int i) (T ! b) = take (nat K) (drop i (T ! b))"
    using py_slice_in_range [of i "nat K" "T ! b"] assms by simp
  then have w: "windows_upto T K n ! b ! i = take (nat K) (drop i (T ! b))"
    using assms by (simp add: windows_upto_def)
  show "length (windows_upto T K n ! b ! i) = nat K"
    using assms by (simp add: w)
  show "windows_upto T K n ! b ! i ! k = T ! b ! (i + k)"
    using assms by (simp add: w)
qed

lemma windows_upto_length:
  "length (windows_upto T K n) = length T"
  "b < length T \<Longrightarrow> length (windows_upto T K n ! b) = n"
  by (simp_all add: windows_upto_def)

lemma initial_window_fits:
  assumes "\<forall>Tb \<in> set T. length Tb = L" "0 \<le> K" "K \<le> int L"
  shows "\<forall>w \<in> set (concat (window T 0 K)). int (length w) = K"
  using assms by (auto simp: window_def py_slice_def slice_bound_def)

text \<open>
  C2. For a tensor \<open>T\<close> of shape \<open>(batch, L, feat)\<close> and \<open>1 \<le> K \<le> L\<close>, \<open>hankel T K\<close> returns
  a tensor of shape \<open>(batch, L - K + 1, K, feat)\<close> whose entry \<open>[b, i, k, :]\<close> is
  \<open>T[b, i + k, :]\<close>.
\<close>

theorem hankel_correct:
  assumes "\<forall>Tb \<in> set T. length Tb = L" and "1 \<le> K" and "K \<le> int L"
  shows "\<exists>H. hankel enforce T K = Inr H \<and> length H = length T \<and>
           (\<forall>b < length T. length (H ! b) = L - nat K + 1 \<and>
              (\<forall>i < L - nat K + 1. length (H ! b ! i) = nat K \<and>
                 (\<forall>k < nat K. H ! b ! i ! k = T ! b ! (i + k))))"
proof -
  define n where "n = max 1 (nat (int (shape1 T) - K + 1))"
  define H where "H = windows_upto T K n"
  have fits: "\<forall>w \<in> set (concat (window T 0 K)). int (length w) = K"
    using initial_window_fits [of T L K] assms by simp
  have run: "hankel enforce T K = Inr H"
    using fits assms(2) by (simp add: hankel_def Let_def hankel_loop_from_1 H_def n_def)
  have elems: "length (H ! b) = L - nat K + 1 \<and>
      (\<forall>i < L - nat K + 1. length (H ! b ! i) = nat K \<and>
         (\<forall>k < nat K. H ! b ! i ! k = T ! b ! (i + k)))" if b: "b < length T" for b
  proof -
    from b have "T \<noteq> []" by auto
    then have "shape1 T = length (hd T)" by (cases T) (simp_all add: shape1_def)
    moreover have "hd T \<in> set T" using \<open>T \<noteq> []\<close> by simp
    ultimately have "shape1 T = L" using assms(1) by simp
    then have n: "n = L - nat K + 1" using assms(2,3) unfolding n_def by linarith
    have len: "length (T ! b) = L" using assms(1) b by simp
    show ?thesis
    proof (intro conjI allI impI)
      show "length (H ! b) = L - nat K + 1"
        using b by (simp add: H_def windows_upto_length n)
    next
      fix i assume i: "i < L - nat K + 1"
      then have fit: "i + nat K \<le> length (T ! b)" using len assms(2,3) by linarith
      show "length (H ! b ! i) = nat K"
        unfolding H_def
      proof (rule windows_upto_nth(1) [where k = 0])
        show "b < length T" by (rule b)
        show "i < n" using i n by simp
        show "i + 0 < length (T ! b)" using fit assms(2) by linarith
        show "i + nat K \<le> length (T ! b)" by (rule fit)
        show "0 \<le> K" using assms(2) by simp
        show "0 < nat K" using assms(2) by simp
      qed
    next
      fix i k assume i: "i < L - nat K + 1" and k: "k < nat K"
      then have fit: "i + nat K \<le> length (T ! b)" using len assms(2,3) by linarith
      show "H ! b ! i ! k = T ! b ! (i + k)"
        unfolding H_def
      proof (rule windows_upto_nth(2))
        show "b < length T" by (rule b)
        show "i < n" using i n by simp
        show "i + k < length (T ! b)" using fit k by linarith
        show "i + nat K \<le> length (T ! b)" by (rule fit)
        show "0 \<le> K" using assms(2) by simp
        show "k < nat K" by (rule k)
      qed
    qed
  qed
  have "length H = length T"
    by (simp add: H_def windows_upto_length)
  with run elems show ?thesis by blast
qed

theorem hankel_correct_witness:
  "\<exists>H. hankel True [[10, 20, 30 :: nat]] 2 = Inr H \<and> length H = 1 \<and>
       length (H ! 0) = 2 \<and> length (H ! 0 ! 1) = 2 \<and> H ! 0 ! 1 ! 1 = 30"
proof -
  have shape: "\<forall>Tb \<in> set [[10, 20, 30 :: nat]]. length Tb = 3" by simp
  have lo: "(1::int) \<le> 2" and hi: "(2::int) \<le> int 3" by simp_all
  from hankel_correct [OF shape lo hi, of True] obtain H where
    run: "hankel True [[10, 20, 30 :: nat]] 2 = Inr H" and len: "length H = 1" and
    el: "\<forall>b < 1. length (H ! b) = 3 - nat 2 + 1 \<and>
           (\<forall>i < 3 - nat 2 + 1. length (H ! b ! i) = nat 2 \<and>
              (\<forall>k < nat 2. H ! b ! i ! k = [[10, 20, 30 :: nat]] ! b ! (i + k)))"
    by auto
  from el have b0: "length (H ! 0) = 3 - nat 2 + 1 \<and>
      (\<forall>i < 3 - nat 2 + 1. length (H ! 0 ! i) = nat 2 \<and>
         (\<forall>k < nat 2. H ! 0 ! i ! k = [[10, 20, 30 :: nat]] ! 0 ! (i + k)))"
    by simp
  then have l0: "length (H ! 0) = 2" by simp
  from b0 have i1: "length (H ! 0 ! 1) = nat 2 \<and>
      (\<forall>k < nat 2. H ! 0 ! 1 ! k = [[10, 20, 30 :: nat]] ! 0 ! (1 + k))"
    by simp
  then have l1: "length (H ! 0 ! 1) = 2" by simp
  from i1 have "H ! 0 ! 1 ! 1 = [[10, 20, 30 :: nat]] ! 0 ! (1 + 1)" by simp
  then have e: "H ! 0 ! 1 ! 1 = 30" by simp
  from run len l0 l1 e show ?thesis by blast
qed

lemma windows_upto_zero:
  "windows_upto T 0 n = map (\<lambda>Tb. replicate n []) T"
proof -
  have "py_slice (int j) (0 + int j) Tb = []" for j and Tb :: "'a list"
    by (simp add: py_slice_def slice_bound_def Let_def)
  then have "map (\<lambda>j. py_slice (int j) (0 + int j) Tb) [0..<n] = replicate n []"
    for Tb :: "'a list"
    by (simp add: map_replicate_const)
  then show ?thesis by (simp add: windows_upto_def)
qed

lemma hankel_zero:
  "hankel enforce T 0 = Inr (map (\<lambda>Tb. replicate (shape1 T + 1) []) T)"
proof -
  have fits: "\<forall>w \<in> set (concat (window T 0 0)). int (length w) = 0"
    by (auto simp: window_def py_slice_def slice_bound_def)
  have "max 1 (nat (int (shape1 T) - 0 + 1)) = shape1 T + 1" by linarith
  then show ?thesis
    using fits by (simp add: hankel_def Let_def hankel_loop_from_1 windows_upto_zero)
qed

lemma hankel_negative: "K < 0 \<Longrightarrow> hankel enforce T K = Inl ValueError"
  by (simp add: hankel_def Let_def)

lemma hankel_too_long:
  assumes "T \<noteq> []" "int (shape1 T) < K"
  shows "hankel True T K = Inl ValueError"
proof -
  from assms(1) obtain Tb Ts where T: "T = Tb # Ts" by (cases T) auto
  then have "int (length Tb) < K" using assms(2) by (simp add: shape1_def)
  then have "int (length (py_slice 0 (K + 0) Tb)) \<noteq> K"
    by (simp add: py_slice_def slice_bound_def Let_def)
  then have "\<exists>w \<in> set (concat (window T 0 K)). int (length w) \<noteq> K"
    by (simp add: T window_def)
  then show ?thesis by (simp add: hankel_def Let_def)
qed

lemma hankel_too_long_returns:
  assumes "\<forall>Tb \<in> set T. length Tb = L" and "int L < K"
  shows "hankel False T K = Inr (map (\<lambda>Tb. [Tb]) T)"
proof -
  have "shape1 T \<le> L"
  proof (cases T)
    case Nil
    then show ?thesis by (simp add: shape1_def)
  next
    case (Cons Tb Ts)
    then show ?thesis using assms(1) by (simp add: shape1_def)
  qed
  then have stop: "\<not> 1 \<le> int (shape1 T) - K" using assms(2) by linarith
  have "py_slice 0 (K + 0) Tb = Tb" if "Tb \<in> set T" for Tb
  proof -
    have "length Tb = L" using assms(1) that by simp
    then have "min (length Tb) (nat K) = length Tb" using assms(2) by linarith
    then show ?thesis using assms(2) by (simp add: py_slice_def slice_bound_def Let_def)
  qed
  then have "window T 0 K = map (\<lambda>Tb. [Tb]) T" by (simp add: window_def)
  moreover have "\<not> K < 0" using assms(2) by linarith
  ultimately show ?thesis
    using stop by (simp add: hankel_def Let_def hankel_loop.simps [of T _ K 1])
qed

text \<open>
  C7 as stated: \<open>hankel\<close> fails whenever \<open>K < 1\<close> or \<open>K > L\<close>. It does not at \<open>K = 0\<close>: every
  slice \<^verbatim>\<open>T[:, i:0+i]\<close> is empty, the shape invariant (third dimension 0) holds, and the loop
  runs \<open>L\<close> times, whatever the library does with the invariant. It does not at \<open>K = 3\<close> on
  a tensor with \<open>L = 2\<close> either: the slice \<^verbatim>\<open>T[:, :3]\<close> is cut to the two time steps there
  are, the loop condition \<open>1 \<le> 2 - 3\<close> is false, and that one window comes back.
\<close>

theorem hankel_zero_depth_counterexample:
  "hankel False [[10, 20 :: nat]] 0 = Inr [[[], [], []]] \<and>
   hankel False [[10, 20 :: nat]] 3 = Inr [[[10, 20]]] \<and>
   hankel True [[10, 20 :: nat]] 0 = Inr [[[], [], []]]"
proof -
  have "(\<forall>Tb \<in> set [[10, 20 :: nat]]. length Tb = 2)" and "int 2 < 3" by simp_all
  then have "hankel False [[10, 20 :: nat]] 3 = Inr (map (\<lambda>Tb. [Tb]) [[10, 20 :: nat]])"
    by (rule hankel_too_long_returns)
  then show ?thesis by (simp add: hankel_zero shape1_def numeral_3_eq_3)
qed

text \<open>
  C7, amended. \<open>hankel\<close> fails whenever \<open>K < 0\<close>: the shape invariant it declares has the
  negative dimension \<open>K\<close>. It has no other range check. At \<open>K = 0\<close> it returns \<open>L + 1\<close>
  empty windows for every batch element; for \<open>K > L\<close> it returns, for every batch element,
  the single window of all \<open>L\<close> time steps.
\<close>

theorem hankel_out_of_range:
  "(K < 0 \<longrightarrow> hankel enforce T K = Inl ValueError) \<and>
   hankel enforce T 0 = Inr (map (\<lambda>Tb. replicate (shape1 T + 1) []) T) \<and>
   ((\<forall>Tb \<in> set T. length Tb = L) \<and> int L < K \<longrightarrow>
      hankel False T K = Inr (map (\<lambda>Tb. [Tb]) T))"
  using hankel_negative [of K enforce T] hankel_zero [of enforce T]
    hankel_too_long_returns [of T L K]
  by blast

theorem hankel_out_of_range_witness:
  "hankel False [[10, 20 :: nat]] (- 1) = Inl ValueError \<and>
   hankel False [[10, 20 :: nat]] 0 = Inr [[[], [], []]] \<and>
   hankel False [[10, 20 :: nat]] 3 = Inr [[[10, 20]]]"
proof -
  have a: "(- 1 :: int) < 0" by simp
  have b: "(\<forall>Tb \<in> set [[10, 20 :: nat]]. length Tb = 2) \<and> int 2 < 3" by simp
  have c: "map (\<lambda>Tb. replicate (shape1 [[10, 20 :: nat]] + 1) []) [[10, 20 :: nat]] =
      [[[], [], []]]"
    by (simp add: shape1_def numeral_3_eq_3)
  show ?thesis
    using hankel_out_of_range [of "- 1" False "[[10, 20 :: nat]]" 2]
      hankel_out_of_range [of 3 False "[[10, 20 :: nat]]" 2] a b c
    by simp
qed

section \<open>The design matrices\<close>

lemma concat_nth_rect:
  assumes "\<forall>xs \<in> set xss. length xs = n" "i < length xss" "j < n"
  shows "concat xss ! (i * n + j) = xss ! i ! j"
  using assms
proof (induction xss arbitrary: i)
  case Nil
  then show ?case by simp
next
  case (Cons xs xss)
  show ?case
  proof (cases i)
    case 0
    then show ?thesis using Cons.prems by (simp add: nth_append)
  next
    case (Suc i')
    then show ?thesis using Cons.prems Cons.IH [of i'] by (simp add: nth_append)
  qed
qed

lemma length_concat_rect:
  "\<forall>xs \<in> set xss. length xs = n \<Longrightarrow> length (concat xss) = length xss * n"
  by (induction xss) simp_all

lemma regroup_concat:
  assumes "\<forall>xs \<in> set xss. length xs = n" "length xss = a"
  shows "regroup a n (concat xss) = xss"
proof (rule nth_equalityI)
  show "length (regroup a n (concat xss)) = length xss"
    using assms by (simp add: regroup_def)
next
  fix i assume "i < length (regroup a n (concat xss))"
  then have i: "i < length xss" using assms by (simp add: regroup_def)
  have len: "length (xss ! i) = n" using assms i by simp
  have "take n (drop (i * n) (concat xss)) = xss ! i"
  proof (rule nth_equalityI)
    have "length (concat xss) = length xss * n" using assms(1) by (rule length_concat_rect)
    moreover have "i * n + n \<le> length xss * n"
      using i by (metis Suc_leI mult_Suc mult_le_mono1 add.commute)
    ultimately show "length (take n (drop (i * n) (concat xss))) = length (xss ! i)"
      using len by simp
  next
    fix j assume "j < length (take n (drop (i * n) (concat xss)))"
    then have j: "j < n" by simp
    have "length (concat xss) = length xss * n" using assms(1) by (rule length_concat_rect)
    moreover have "i * n + n \<le> length xss * n"
      using i by (metis Suc_leI mult_Suc mult_le_mono1 add.commute)
    ultimately have "i * n + j < length (concat xss)" using j by linarith
    then show "take n (drop (i * n) (concat xss)) ! j = xss ! i ! j"
      using j concat_nth_rect [OF assms(1) i j] by simp
  qed
  then show "regroup a n (concat xss) ! i = xss ! i"
    using i assms by (simp add: regroup_def)
qed

lemma concat_concat_map: "concat (concat xsss) = concat (map concat xsss)"
  by (induction xsss) simp_all

lemma rect2_concat: "rect2 a b T \<Longrightarrow> length (concat T) = a * b"
  using length_concat_rect [of T b] by (simp add: rect2_def)

lemma rect3_concat: "rect3 a b c T \<Longrightarrow> rect2 a (b * c) (map concat T)"
  by (simp add: rect3_def rect2_def rect2_concat)

lemma rect4_concat: "rect4 a b c d T \<Longrightarrow> rect3 a b (c * d) (map (map concat) T)"
  using rect3_concat by (fastforce simp: rect4_def rect3_def)

lemma reshape_dims_plain:
  assumes "\<forall>d \<in> set ds. 0 \<le> d" "nat (prod_list ds) = sz"
  shows "reshape_dims sz ds = Inr (map nat ds)"
proof -
  have "\<not> (\<exists>d \<in> set ds. d < - 1)" using assms(1) by fastforce
  moreover have "- 1 \<notin> set ds" using assms(1) by fastforce
  moreover then have "filter (\<lambda>d. d = - 1) ds = []" by (auto simp: filter_empty_conv)
  ultimately show ?thesis using assms(2) by (simp add: reshape_dims_def)
qed

lemma reshape2_merge:
  assumes "rect3 a b c X"
  shows "reshape2 (concat (concat X)) (int a) (int (b * c)) = Inr (Mat a (b * c) (map concat X))"
proof -
  have r: "rect2 a (b * c) (map concat X)" using assms by (rule rect3_concat)
  have flat: "concat (concat X) = concat (map concat X)" by (rule concat_concat_map)
  have len: "length (concat (concat X)) = a * (b * c)"
    using rect2_concat [OF r] by (simp add: flat)
  have "prod_list [int a, int (b * c)] = int (a * (b * c))"
    by simp
  then have "nat (prod_list [int a, int (b * c)]) = a * (b * c)"
    by (simp only: nat_int)
  moreover have "map nat [int a, int (b * c)] = [a, b * c]"
    by (simp del: of_nat_mult)
  ultimately have dims:
    "reshape_dims (length (concat (concat X))) [int a, int (b * c)] = Inr [a, b * c]"
    using reshape_dims_plain [of "[int a, int (b * c)]" "length (concat (concat X))"] len
    by (simp del: of_nat_mult)
  have "regroup a (b * c) (concat (map concat X)) = map concat X"
    using r by (intro regroup_concat) (simp_all add: rect2_def)
  then show ?thesis
    unfolding reshape2_def dims by (simp add: then_do_def flat)
qed

lemma reshape3_merge:
  assumes "rect4 a b c d T"
  shows "reshape3 (concat (concat (concat T))) (int a) (int b) (int (c * d)) =
           Inr ((a, b, c * d), map (map concat) T)"
proof -
  have r3: "rect3 a b (c * d) (map (map concat) T)" using assms by (rule rect4_concat)
  then have r2: "rect2 a (b * (c * d)) (map concat (map (map concat) T))"
    by (rule rect3_concat)
  have "concat (concat (concat T)) = concat (map concat (concat T))"
    by (rule concat_concat_map)
  also have "\<dots> = concat (concat (map (map concat) T))"
    by (simp only: map_concat)
  also have "\<dots> = concat (map concat (map (map concat) T))"
    by (rule concat_concat_map)
  finally have flat: "concat (concat (concat T)) = concat (map concat (map (map concat) T))" .
  have len: "length (concat (concat (concat T))) = a * (b * (c * d))"
    using rect2_concat [OF r2] by (simp add: flat)
  have "prod_list [int a, int b, int (c * d)] = int (a * (b * (c * d)))"
    by simp
  then have "nat (prod_list [int a, int b, int (c * d)]) = a * (b * (c * d))"
    by (simp only: nat_int)
  moreover have "map nat [int a, int b, int (c * d)] = [a, b, c * d]"
    by (simp del: of_nat_mult)
  ultimately have dims:
    "reshape_dims (length (concat (concat (concat T)))) [int a, int b, int (c * d)] =
      Inr [a, b, c * d]"
    using reshape_dims_plain [of "[int a, int b, int (c * d)]" "length (concat (concat (concat T)))"] len
    by (simp del: of_nat_mult)
  have outer: "regroup a (b * (c * d)) (concat (map concat (map (map concat) T))) =
      map concat (map (map concat) T)"
    using r2 by (intro regroup_concat) (simp_all add: rect2_def)
  have inner: "regroup b (c * d) (concat x) = x" if "x \<in> set (map (map concat) T)" for x
  proof -
    from that r3 have "rect2 b (c * d) x" by (auto simp: rect3_def)
    then show ?thesis by (intro regroup_concat) (simp_all add: rect2_def)
  qed
  have "map (regroup b (c * d)) (map concat (map (map concat) T)) = map (map concat) T"
    using inner by (simp add: map_idI)
  then have "map (regroup b (c * d)) (regroup a (b * (c * d)) (concat (concat (concat T)))) =
      map (map concat) T"
    by (simp only: flat outer)
  then show ?thesis
    unfolding reshape3_def dims by (simp add: then_do_def)
qed

lemma hankel_eq:
  assumes "\<forall>Tb \<in> set T. length Tb = L" and "1 \<le> K" and "K \<le> int L"
  shows "hankel enforce T K =
           Inr (map (\<lambda>Tb. map (\<lambda>j. take (nat K) (drop j Tb)) [0..<L - nat K + 1]) T)"
proof -
  define n where "n = max 1 (nat (int (shape1 T) - K + 1))"
  have fits: "\<forall>w \<in> set (concat (window T 0 K)). int (length w) = K"
    using initial_window_fits [of T L K] assms by simp
  have run: "hankel enforce T K = Inr (windows_upto T K n)"
    using fits assms(2) by (simp add: hankel_def Let_def hankel_loop_from_1 n_def)
  have "windows_upto T K n =
      map (\<lambda>Tb. map (\<lambda>j. take (nat K) (drop j Tb)) [0..<L - nat K + 1]) T"
  proof (cases "T = []")
    case True
    then show ?thesis by (simp add: windows_upto_def)
  next
    case False
    then have "shape1 T = length (hd T)" by (cases T) (simp_all add: shape1_def)
    moreover have "hd T \<in> set T" using False by simp
    ultimately have "shape1 T = L" using assms(1) by simp
    then have n: "n = L - nat K + 1" using assms(2,3) unfolding n_def by linarith
    have "py_slice (int j) (K + int j) Tb = take (nat K) (drop j Tb)"
      if "Tb \<in> set T" "j < L - nat K + 1" for Tb j
    proof -
      have "j + nat K \<le> length Tb" using that assms by auto
      then show ?thesis using py_slice_in_range [of j "nat K" Tb] assms(2) by simp
    qed
    then show ?thesis by (simp add: windows_upto_def n)
  qed
  with run show ?thesis by simp
qed

lemma slice_all_but_last: "py_slice 0 (- 1) (map g [0..<Suc w]) = map g [0..<w]"
  by (simp add: py_slice_def slice_bound_def Let_def take_map del: upt_Suc)

lemma slice_all_but_first: "drop (Suc 0) (map g [0..<Suc w]) = map (\<lambda>i. g (Suc i)) [0..<w]"
proof -
  have "drop 1 [0..<Suc w] = map Suc [0..<w]"
    by (simp add: map_Suc_upt del: upt_Suc)
  then show ?thesis by (simp add: drop_map del: upt_Suc)
qed

lemma samples_entry:
  assumes "p < F" "b < bs" "i < w"
  shows "entry (samples off F bs w t) p (b * w + i) = t ! b ! (off + i) ! p"
proof -
  let ?rows = "map (\<lambda>b. map (\<lambda>i. t ! b ! (off + i) ! p) [0..<w]) [0..<bs]"
  have "concat ?rows ! (b * w + i) = ?rows ! b ! i"
    using assms by (intro concat_nth_rect) simp_all
  then show ?thesis using assms by (simp add: entry_def samples_def)
qed

lemma samples_wf: "wf_mat (samples off F bs w t)"
proof -
  have "length (concat (map (\<lambda>b. map (\<lambda>i. t ! b ! (off + i) ! p) [0..<w]) [0..<bs])) = bs * w"
    for p
    using length_concat_rect
      [of "map (\<lambda>b. map (\<lambda>i. t ! b ! (off + i) ! p) [0..<w]) [0..<bs]" w]
    by simp
  then show ?thesis by (simp add: wf_mat_def samples_def list_all_iff)
qed

lemma embedded_entry:
  assumes "rect4 bs n m m T" "b < bs" "j + kk \<le> n" "j \<le> w" "k < kk" "r < m" "c < m"
  shows "embedded T kk w ! b ! j ! (k * (m * m) + (r * m + c)) = T ! b ! (j + k) ! r ! c"
proof -
  have Tb: "rect3 n m m (T ! b)" using assms(1,2) by (simp add: rect4_def)
  then have len: "length (T ! b) = n" by (simp add: rect3_def)
  have Tbt: "rect2 m m (T ! b ! t)" if "t < n" for t
    using Tb that by (simp add: rect3_def)
  let ?win = "take kk (drop j (map concat (T ! b)))"
  have winlen: "length ?win = kk" using assms(3) len by simp
  have winrows: "\<forall>x \<in> set ?win. length x = m * m"
  proof
    fix x assume "x \<in> set ?win"
    then have "x \<in> set (map concat (T ! b))" by (meson in_set_dropD in_set_takeD)
    then obtain y where "y \<in> set (T ! b)" "x = concat y" by auto
    then show "length x = m * m" using Tb rect2_concat [of m m y] by (simp add: rect3_def)
  qed
  have q: "r * m + c < m * m"
  proof -
    have "r * m + c < r * m + m" using assms(7) by simp
    also have "\<dots> = Suc r * m" by simp
    also have "\<dots> \<le> m * m" using assms(6) by (simp add: Suc_leI mult_le_mono1 del: mult_Suc)
    finally show ?thesis .
  qed
  have "embedded T kk w ! b ! j = concat ?win"
    using assms(1,2,4) by (simp add: embedded_def rect4_def del: upt_Suc)
  also have "\<dots> ! (k * (m * m) + (r * m + c)) = ?win ! k ! (r * m + c)"
    using winrows winlen assms(5) q by (intro concat_nth_rect) simp_all
  also have "?win ! k = concat (T ! b ! (j + k))"
    using assms(3,5) len by simp
  also have "\<dots> ! (r * m + c) = T ! b ! (j + k) ! r ! c"
  proof (rule concat_nth_rect)
    have "j + k < n" using assms(3,5) by simp
    from Tbt [OF this] show "\<forall>xs \<in> set (T ! b ! (j + k)). length xs = m"
      and "r < length (T ! b ! (j + k))"
      using assms(6) by (simp_all add: rect2_def)
    show "c < m" by (rule assms(7))
  qed
  finally show ?thesis .
qed

lemma design_eq:
  assumes T: "rect4 bs n m m T" and bs: "1 \<le> bs" and K1: "1 \<le> K" and Kn: "K \<le> int n - 1"
  shows "design enforce T K =
           Inr (samples 0 (nat K * (m * m)) bs (n - nat K) (embedded T (nat K) (n - nat K)),
                samples 1 (nat K * (m * m)) bs (n - nat K) (embedded T (nat K) (n - nat K)))"
proof -
  define kk where "kk = nat K"
  define w where "w = n - kk"
  define F where "F = kk * (m * m)"
  define t1 where "t1 = map (map concat) T"
  define H where "H = map (\<lambda>Tb. map (\<lambda>j. take kk (drop j Tb)) [0..<Suc w]) t1"
  define t3 where "t3 = embedded T kk w"
  have K: "K = int kk" using K1 by (simp add: kk_def)
  have kkn: "kk + 1 \<le> n" using Kn K by linarith
  have wn: "w + kk = n" using kkn by (simp add: w_def)
  \<comment> \<open>the shape read off the input\<close>
  from bs T obtain T0 Ts where T0: "T = T0 # Ts" by (cases T) (auto simp: rect4_def)
  then have "rect3 n m m T0" using T by (simp add: rect4_def)
  then have "length T0 = n" and "\<forall>x \<in> set T0. rect2 m m x" by (simp_all add: rect3_def)
  moreover then obtain T00 T0s where "T0 = T00 # T0s" using kkn by (cases T0) auto
  ultimately have sh: "length T = bs" "shape1 T = n" "shape2 T = m"
    using T by (auto simp: T0 shape1_def shape2_def rect4_def rect2_def)
  \<comment> \<open>line 76\<close>
  have "int m ^ 2 = int (m * m)" by (simp add: power2_eq_square)
  then have s1: "reshape3 (concat (concat (concat T))) (int bs) (int n) (int m ^ 2) =
      Inr ((bs, n, m * m), t1)"
    using reshape3_merge [OF T] by (simp only: t1_def)
  have r1: "rect3 bs n (m * m) t1" unfolding t1_def using T by (rule rect4_concat)
  \<comment> \<open>line 78\<close>
  have "\<forall>Tb \<in> set t1. length Tb = n" using r1 by (simp add: rect3_def rect2_def)
  moreover have "K \<le> int n" using Kn by simp
  ultimately have "hankel enforce t1 K =
      Inr (map (\<lambda>Tb. map (\<lambda>j. take (nat K) (drop j Tb)) [0..<n - nat K + 1]) t1)"
    using K1 by (intro hankel_eq)
  then have s2: "hankel enforce t1 K = Inr H"
    by (simp add: H_def kk_def w_def del: upt_Suc)
  have r2: "rect4 bs (Suc w) kk (m * m) H"
  proof -
    have "rect2 kk (m * m) (take kk (drop j Tb))" if "Tb \<in> set t1" "j < Suc w" for Tb j
    proof -
      from that r1 have Tb: "rect2 n (m * m) Tb" by (simp add: rect3_def)
      then have "length (take kk (drop j Tb)) = kk" using that wn by (simp add: rect2_def)
      moreover have "\<forall>x \<in> set (take kk (drop j Tb)). length x = m * m"
        using Tb by (auto simp: rect2_def dest!: in_set_takeD in_set_dropD)
      ultimately show ?thesis by (simp add: rect2_def)
    qed
    then show ?thesis using r1 by (simp add: H_def rect4_def rect3_def del: upt_Suc)
  qed
  \<comment> \<open>line 80\<close>
  have d1: "int n - K + 1 = int (Suc w)" using wn K by linarith
  have d2: "K * int m ^ 2 = int (kk * (m * m))" by (simp add: K power2_eq_square)
  have "map (map concat) H = t3"
    by (simp add: H_def t3_def embedded_def t1_def comp_def del: upt_Suc)
  then have s3: "reshape3 (concat (concat (concat H))) (int bs) (int n - K + 1) (K * int m ^ 2) =
      Inr ((bs, Suc w, F), t3)"
    using reshape3_merge [OF r2] by (simp only: d1 d2 F_def)
  \<comment> \<open>lines 81 to 83\<close>
  define X where "X = map (\<lambda>p. map (\<lambda>b. map (\<lambda>i. t3 ! b ! (0 + i) ! p) [0..<w]) [0..<bs]) [0..<F]"
  define Y where "Y = map (\<lambda>p. map (\<lambda>b. map (\<lambda>i. t3 ! b ! (1 + i) ! p) [0..<w]) [0..<bs]) [0..<F]"
  have sX: "map (map (py_slice 0 (- 1))) (transpose_201 (bs, Suc w, F) t3) = X"
    by (simp add: transpose_201_def X_def slice_all_but_last del: upt_Suc)
  have sY: "map (map (drop 1)) (transpose_201 (bs, Suc w, F) t3) = Y"
    by (simp add: transpose_201_def Y_def slice_all_but_first del: upt_Suc)
  \<comment> \<open>lines 85 and 86\<close>
  have d3: "int bs * (int n - K) = int (bs * w)" using wn K by (simp add: w_def)
  have "rect3 F bs w X" by (simp add: X_def rect3_def rect2_def)
  from reshape2_merge [OF this]
  have s4: "reshape2 (concat (concat X)) (K * int m ^ 2) (int bs * (int n - K)) =
      Inr (samples 0 F bs w t3)"
    by (simp only: d2 d3 F_def [symmetric]) (simp add: samples_def X_def comp_def)
  have "rect3 F bs w Y" by (simp add: Y_def rect3_def rect2_def)
  from reshape2_merge [OF this]
  have s5: "reshape2 (concat (concat Y)) (K * int m ^ 2) (int bs * (int n - K)) =
      Inr (samples 1 F bs w t3)"
    by (simp only: d2 d3 F_def [symmetric]) (simp add: samples_def Y_def comp_def)
  have "design enforce T K = Inr (samples 0 F bs w t3, samples 1 F bs w t3)"
    unfolding design_def Let_def sh
    by (simp only: s1 then_do_def sum.case prod.case s2 s3 sX sY s4 s5)
  then show ?thesis by (simp only: F_def t3_def w_def kk_def)
qed

text \<open>
  C3. For trajectories of shape \<open>(bs, n, m, m)\<close> and \<open>1 \<le> K \<le> n - 1\<close> the design matrices
  \<open>X\<close> and \<open>Y\<close> both have shape \<open>(K m\<^sup>2, bs (n - K))\<close>. Column \<open>b (n - K) + i\<close> of \<open>X\<close> holds
  the time steps \<open>i, ..., i + K - 1\<close> of trajectory \<open>b\<close> and nothing else; the same column
  of \<open>Y\<close> holds the time steps \<open>i + 1, ..., i + K\<close> of the same trajectory \<open>b\<close>.
\<close>

theorem design_columns:
  assumes "rect4 bs n m m trajectories" and "1 \<le> bs" and "1 \<le> K" and "K \<le> int n - 1"
  shows "\<exists>X Y. design enforce trajectories K = Inr (X, Y) \<and>
           nrows X = nat K * m\<^sup>2 \<and> ncols X = bs * (n - nat K) \<and> wf_mat X \<and>
           nrows Y = nat K * m\<^sup>2 \<and> ncols Y = bs * (n - nat K) \<and> wf_mat Y \<and>
           (\<forall>b < bs. \<forall>i < n - nat K. \<forall>k < nat K. \<forall>r < m. \<forall>c < m.
              entry X (k * m\<^sup>2 + r * m + c) (b * (n - nat K) + i) =
                trajectories ! b ! (i + k) ! r ! c \<and>
              entry Y (k * m\<^sup>2 + r * m + c) (b * (n - nat K) + i) =
                trajectories ! b ! (i + k + 1) ! r ! c)"
proof -
  define kk where "kk = nat K"
  define w where "w = n - kk"
  define F where "F = kk * (m * m)"
  define t where "t = embedded trajectories kk w"
  define X where "X = samples 0 F bs w t"
  define Y where "Y = samples 1 F bs w t"
  have run: "design enforce trajectories K = Inr (X, Y)"
    using design_eq [OF assms] by (simp only: X_def Y_def t_def F_def w_def kk_def)
  have wn: "w + kk = n" using assms(3,4) by (simp add: w_def kk_def)
  have shape: "nrows X = kk * m\<^sup>2" "ncols X = bs * w" "nrows Y = kk * m\<^sup>2" "ncols Y = bs * w"
    by (simp_all add: X_def Y_def samples_def F_def power2_eq_square)
  have wf: "wf_mat X" "wf_mat Y"
    by (simp_all add: X_def Y_def samples_wf)
  have cols: "entry X (k * m\<^sup>2 + r * m + c) (b * w + i) = trajectories ! b ! (i + k) ! r ! c \<and>
      entry Y (k * m\<^sup>2 + r * m + c) (b * w + i) = trajectories ! b ! (i + k + 1) ! r ! c"
    if b: "b < bs" and i: "i < w" and k: "k < kk" and r: "r < m" and c: "c < m" for b i k r c
  proof -
    have "r * m + c < r * m + m" using c by simp
    also have "\<dots> = Suc r * m" by simp
    also have "\<dots> \<le> m * m" using r by (simp add: Suc_leI mult_le_mono1 del: mult_Suc)
    finally have q: "r * m + c < m * m" .
    then have "k * (m * m) + (r * m + c) < k * (m * m) + m * m" by simp
    also have "\<dots> = Suc k * (m * m)" by simp
    also have "\<dots> \<le> kk * (m * m)" using k by (simp add: Suc_leI mult_le_mono1 del: mult_Suc)
    finally have p: "k * (m * m) + (r * m + c) < F" by (simp add: F_def)
    have idx: "k * m\<^sup>2 + r * m + c = k * (m * m) + (r * m + c)"
      by (simp add: power2_eq_square)
    have "entry X (k * (m * m) + (r * m + c)) (b * w + i) = t ! b ! (0 + i) ! (k * (m * m) + (r * m + c))"
      unfolding X_def using p b i by (rule samples_entry)
    also have "\<dots> = trajectories ! b ! (i + k) ! r ! c"
      unfolding t_def using embedded_entry [OF assms(1) b, of i kk w k r c] wn i k r c by simp
    finally have x: "entry X (k * (m * m) + (r * m + c)) (b * w + i) =
        trajectories ! b ! (i + k) ! r ! c" .
    have "entry Y (k * (m * m) + (r * m + c)) (b * w + i) = t ! b ! (1 + i) ! (k * (m * m) + (r * m + c))"
      unfolding Y_def using p b i by (rule samples_entry)
    also have "\<dots> = trajectories ! b ! (1 + i + k) ! r ! c"
      unfolding t_def using embedded_entry [OF assms(1) b, of "1 + i" kk w k r c] wn i k r c by simp
    finally have y: "entry Y (k * (m * m) + (r * m + c)) (b * w + i) =
        trajectories ! b ! (i + k + 1) ! r ! c"
      by (simp add: add.commute add.left_commute)
    from x y show ?thesis by (simp only: idx) 
  qed
  show ?thesis
    using run shape wf cols unfolding w_def kk_def by blast
qed

theorem design_columns_witness:
  "\<exists>X Y. design True [[[[1]], [[2]], [[3]]], [[[4]], [[5]], [[6]]]] 1 = Inr (X, Y) \<and>
      nrows X = 1 \<and> ncols X = 4 \<and> nrows Y = 1 \<and> ncols Y = 4 \<and>
      entry X 0 1 = 2 \<and> entry Y 0 1 = 3 \<and> entry X 0 2 = 4 \<and> entry Y 0 2 = 5"
proof -
  let ?T = "[[[[1]], [[2]], [[3]]], [[[4]], [[5]], [[6]]]] :: complex list list list list"
  have shape: "rect4 2 3 1 1 ?T" by (simp add: rect4_def rect3_def rect2_def)
  have bs: "(1::nat) \<le> 2" and lo: "(1::int) \<le> 1" and hi: "(1::int) \<le> int 3 - 1"
    by simp_all
  from design_columns [OF shape bs lo hi, of True] obtain X Y where
    run: "design True ?T 1 = Inr (X, Y)" and
    dims: "nrows X = nat 1 * 1\<^sup>2" "ncols X = 2 * (3 - nat 1)"
      "nrows Y = nat 1 * 1\<^sup>2" "ncols Y = 2 * (3 - nat 1)" and
    cols: "\<forall>b < 2. \<forall>i < 3 - nat 1. \<forall>k < nat 1. \<forall>r < 1. \<forall>c < 1.
        entry X (k * 1\<^sup>2 + r * 1 + c) (b * (3 - nat 1) + i) = ?T ! b ! (i + k) ! r ! c \<and>
        entry Y (k * 1\<^sup>2 + r * 1 + c) (b * (3 - nat 1) + i) = ?T ! b ! (i + k + 1) ! r ! c"
    by blast
  have c1: "entry X 0 1 = 2 \<and> entry Y 0 1 = 3"
    using cols [rule_format, of 0 1 0 0 0] by simp
  have c2: "entry X 0 2 = 4 \<and> entry Y 0 2 = 5"
    using cols [rule_format, of 1 0 0 0 0] by simp
  from dims have d: "nrows X = 1" "ncols X = 4" "nrows Y = 1" "ncols Y = 4" by simp_all
  from run d c1 c2 show ?thesis by blast
qed

section \<open>Matrices: basic facts\<close>

lemma build_cong:
  assumes "\<And>i j. i < nr \<Longrightarrow> j < nc \<Longrightarrow> f i j = g i j"
  shows "build nr nc f = build nr nc g"
  using assms by (simp add: build_def)

lemma build_simps [simp]:
  "nrows (build nr nc f) = nr" "ncols (build nr nc f) = nc"
  "i < nr \<Longrightarrow> j < nc \<Longrightarrow> entry (build nr nc f) i j = f i j"
  "wf_mat (build nr nc f)"
  by (simp_all add: build_def entry_def wf_mat_def list_all_iff)

lemma fin_simps [simp]:
  "nrows (fin A) = nrows A" "ncols (fin A) = ncols A"
  by (simp_all add: fin_def)

lemma fin_entry:
  "wf_mat A \<Longrightarrow> i < nrows A \<Longrightarrow> j < ncols A \<Longrightarrow> entry (fin A) i j = Some (entry A i j)"
  by (simp add: fin_def entry_def wf_mat_def list_all_iff)

lemma bdim_same [simp]: "bdim a a = Some a"
  by (simp add: bdim_def)

lemma bdim_one [simp]: "bdim a 1 = Some a" "bdim a (Suc 0) = Some a"
  by (simp_all add: bdim_def)

lemma broadcast_same:
  assumes "nrows A = nrows B" "ncols A = ncols B"
  shows "broadcast f A B = Inr (build (nrows A) (ncols A) (\<lambda>i j. f (entry A i j) (entry B i j)))"
proof -
  have "build (nrows A) (ncols A) (\<lambda>i j.
          f (entry A (if nrows A = 1 then 0 else i) (if ncols A = 1 then 0 else j))
            (entry B (if nrows B = 1 then 0 else i) (if ncols B = 1 then 0 else j))) =
        build (nrows A) (ncols A) (\<lambda>i j. f (entry A i j) (entry B i j))"
    using assms by (intro build_cong) auto
  then show ?thesis using assms by (simp add: broadcast_def)
qed

lemma broadcast_row:
  assumes "ncols A = length w"
  shows "broadcast f A (row_vec w) =
           Inr (build (nrows A) (ncols A) (\<lambda>i j. f (entry A i j) (w ! j)))"
proof -
  have "build (nrows A) (ncols A) (\<lambda>i j.
          f (entry A (if nrows A = 1 then 0 else i) (if ncols A = 1 then 0 else j))
            (entry (row_vec w) (if nrows (row_vec w) = 1 then 0 else i)
               (if ncols (row_vec w) = 1 then 0 else j))) =
        build (nrows A) (ncols A) (\<lambda>i j. f (entry A i j) (w ! j))"
    using assms by (intro build_cong) (auto simp: row_vec_def entry_def)
  then show ?thesis using assms by (simp add: broadcast_def row_vec_def)
qed

lemma fsum_Some: "fsum (map Some xs) = Some (sum_list xs)"
  by (induction xs) (simp_all add: fsum_def fadd_def)

lemma fsum_map_Some: "fsum (map (\<lambda>k. Some (g k)) ks) = Some (sum_list (map g ks))"
  using fsum_Some [of "map g ks"] by (simp add: comp_def)

lemma fsum_delta:
  assumes "j < n"
  shows "fsum (map (\<lambda>k. fmul (Some (a k)) (if k = j then d else Some 0)) [0..<n]) =
           fmul (Some (a j)) d"
proof (cases d)
  case None
  have "fsum (map (\<lambda>k. fmul (Some (a k)) (if k = j then None else Some 0)) ks) = None"
    if "j \<in> set ks" for ks
    using that by (induction ks) (auto simp: fsum_def fadd_def fmul_def split: option.splits)
  from this [of "[0..<n]"] assms
  have "fsum (map (\<lambda>k. fmul (Some (a k)) (if k = j then None else Some 0)) [0..<n]) = None"
    by simp
  then show ?thesis unfolding None by (simp add: fmul_def)
next
  case (Some y)
  have "fsum (map (\<lambda>k. fmul (Some (a k)) (if k = j then Some y else Some 0)) [0..<n]) =
      fsum (map (\<lambda>k. Some (if k = j then a k * y else 0)) [0..<n])"
    by (intro arg_cong [where f = fsum] map_cong) (simp_all add: fmul_def)
  also have "\<dots> = Some (sum_list (map (\<lambda>k. if k = j then a k * y else 0) [0..<n]))"
    by (rule fsum_map_Some)
  also have "sum_list (map (\<lambda>k. if k = j then a k * y else 0) [0..<n]) =
      (\<Sum>k = 0..<n. if k = j then a k * y else 0)"
    by (simp add: interv_sum_list_conv_sum_set_nat)
  also have "\<dots> = a j * y" using assms by simp
  finally show ?thesis unfolding Some by (simp add: fmul_def)
qed

lemma scale_cols_diag:
  assumes "wf_mat A" "ncols A = length w"
  shows "broadcast fmul (fin A) (row_vec w) = Inr (mprod (fin A) (diag w))"
proof -
  have "build (nrows A) (ncols A) (\<lambda>i j. fmul (entry (fin A) i j) (w ! j)) =
      build (nrows A) (length w)
        (\<lambda>i j. fsum (map (\<lambda>k. fmul (entry (fin A) i k) (entry (diag w) k j)) [0..<ncols A]))"
    unfolding assms(2)
  proof (rule build_cong)
    fix i j assume i: "i < nrows A" and j: "j < length w"
    have "fsum (map (\<lambda>k. fmul (entry (fin A) i k) (entry (diag w) k j)) [0..<length w]) =
        fsum (map (\<lambda>k. fmul (Some (entry A i k)) (if k = j then w ! j else Some 0)) [0..<length w])"
      using i j assms by (intro arg_cong [where f = fsum] map_cong) (auto simp: fin_entry diag_def)
    also have "\<dots> = fmul (Some (entry A i j)) (w ! j)" using j by (rule fsum_delta)
    finally show "fmul (entry (fin A) i j) (w ! j) =
        fsum (map (\<lambda>k. fmul (entry (fin A) i k) (entry (diag w) k j)) [0..<length w])"
      using i j assms by (simp add: fin_entry)
  qed
  then show ?thesis
    using broadcast_row [of "fin A" w fmul] assms(2) by (simp add: mprod_def diag_def)
qed

section \<open>Pseudoinverse and regression\<close>

lemma count_above_filter: "count_above eps s = length (filter (\<lambda>x. eps < x) s)"
  by (induction s) (simp_all add: count_above_def)

lemma count_above_none: "\<forall>x \<in> set s. x \<le> eps \<Longrightarrow> count_above eps s = 0"
  by (simp add: count_above_filter filter_empty_conv not_less)

lemma take_cols_simps [simp]:
  "nrows (take_cols k A) = nrows A" "ncols (take_cols k A) = min k (ncols A)"
  by (simp_all add: take_cols_def)

lemma adjoint_simps [simp]:
  "nrows (adjoint A) = ncols A" "ncols (adjoint A) = nrows A"
  by (simp_all add: adjoint_def)

lemma mprod_simps [simp]:
  "nrows (mprod A B) = nrows A" "ncols (mprod A B) = ncols B" "wf_mat (mprod A B)"
  by (simp_all add: mprod_def)

lemma build_const: "build nr nc (\<lambda>i j. c) = Mat nr nc (replicate nr (replicate nc c))"
  by (simp add: build_def map_replicate_const)

lemma then_do_Inr [simp]: "then_do (Inr x) f = f x"
  by (simp add: then_do_def)


text \<open>
  C8. When every singular value of an \<open>a \<times> b\<close> matrix \<open>X\<close> is at most \<open>eps\<close>, the retained
  rank is 0 and \<open>pinv X eps\<close> returns the \<open>b \<times> a\<close> matrix of zeros: no reciprocal is
  taken (every entry is the finite number 0, none is a non-finite value) and no error is
  raised. The shapes of the factors \<open>u\<close> (\<open>a\<close> rows) and \<open>v\<close> (\<open>b\<close> rows) are the contract
  of the library's SVD.
\<close>

theorem pinv_rank_zero:
  assumes "lib_svd lib X = Inr (s, u, v)" and "\<forall>x \<in> set s. x \<le> eps"
    and "nrows u = nrows X" and "nrows v = ncols X"
  shows "pinv lib X eps =
           Inr (Mat (ncols X) (nrows X) (replicate (ncols X) (replicate (nrows X) (Some 0))))"
proof -
  have ind: "count_above eps s = 0" using assms(2) by (rule count_above_none)
  let ?u = "take_cols 0 u" and ?v = "take_cols 0 v"
  have "ncols (fin ?v) = length ([] :: num list)" by simp
  from broadcast_row [OF this, of fmul]
  obtain vs where vs: "broadcast fmul (fin ?v) (row_vec []) = Inr vs"
    and dims: "nrows vs = nrows v" "ncols vs = 0"
    by simp
  have "mprod vs (adjoint (fin ?u)) = build (nrows v) (nrows u) (\<lambda>i j. Some 0)"
    by (simp add: mprod_def dims fsum_def)
  then have "matmul vs (adjoint (fin ?u)) =
      Inr (Mat (ncols X) (nrows X) (replicate (ncols X) (replicate (nrows X) (Some 0))))"
    using assms(3,4) by (simp add: matmul_def dims build_const)
  then show ?thesis
    by (simp add: pinv_def assms(1) ind Let_def vs)
qed

theorem pinv_rank_zero_witness:
  "pinv \<lparr>lib_svd = \<lambda>A. Inr ([1 / 2, 0], Mat 2 2 [[1, 0], [0, 1]], Mat 2 2 [[1, 0], [0, 1]]),
         lib_eig = \<lambda>A. Inl InvalidArgument, lib_inv = \<lambda>A. Inl InvalidArgument\<rparr>
     (Mat 2 2 [[1 / 2, 0], [0, 0]]) 1 =
   Inr (Mat 2 2 [[Some 0, Some 0], [Some 0, Some 0]])"
  using pinv_rank_zero [of
      "\<lparr>lib_svd = \<lambda>A. Inr ([1 / 2, 0], Mat 2 2 [[1, 0], [0, 1]], Mat 2 2 [[1, 0], [0, 1]]),
        lib_eig = \<lambda>A. Inl InvalidArgument, lib_inv = \<lambda>A. Inl InvalidArgument\<rparr>"
      "Mat 2 2 [[1 / 2, 0], [0, 0]]" "[1 / 2, 0]" "Mat 2 2 [[1, 0], [0, 1]]"
      "Mat 2 2 [[1, 0], [0, 1]]" 1]
  by (simp add: numeral_2_eq_2)



lemma upt_2: "[0..<2] = [0, 1]"
  by (simp add: numeral_2_eq_2)

lemmas eval_defs = mprod_def build_def fin_def diag_def adjoint_def matrix_transpose_def entry_def
  fsum_def fmul_def fadd_def fdiv_def fcnj_def fsqrt_def upt_2


section \<open>The modes of the reduced operator\<close>

lemma count_above_le: "count_above eps s \<le> length s"
  by (simp add: count_above_filter)

lemma take_cols_wf: "wf_mat A \<Longrightarrow> wf_mat (take_cols k A)"
  by (auto simp: wf_mat_def take_cols_def list_all_iff)

lemma matmul_fits: "ncols A = nrows B \<Longrightarrow> matmul A B = Inr (mprod A B)"
  by (simp add: matmul_def)

lemma modes_upto_eig:
  fixes lib X Y eps sigma U V
  defines "r \<equiv> count_above eps sigma"
  defines "VD \<equiv> mprod (fin (take_cols r V)) (diag (map recip (take r sigma)))"
  defines "T_tilda \<equiv> mprod (mprod (adjoint (fin (take_cols r U))) (fin Y)) VD"
  assumes svd: "lib_svd lib X = Inr (sigma, U, V)"
    and V: "wf_mat V" "ncols V = length sigma" "nrows V = ncols Y"
    and U: "ncols U = length sigma" "nrows U = nrows Y"
  shows "modes lib X Y eps =
           then_do (lib_eig lib T_tilda) (\<lambda>(eig_vals, right).
           then_do (lib_inv lib right) (\<lambda>right_inv.
           then_do (matmul (mprod (fin Y) VD) right) (\<lambda>right.
           then_do (matmul (fin (take_cols r U)) (adjoint right_inv)) (\<lambda>left.
             Inr (eig_vals, right, left)))))"
    and "nrows T_tilda = r" and "ncols T_tilda = r"
proof -
  have r: "r \<le> length sigma" unfolding r_def by (rule count_above_le)
  have vl: "broadcast fmul (fin (take_cols r V)) (row_vec (map recip (take r sigma))) = Inr VD"
    unfolding VD_def using V(1,2) r by (intro scale_cols_diag take_cols_wf) simp_all
  have uY: "matmul (adjoint (fin (take_cols r U))) (fin Y) =
      Inr (mprod (adjoint (fin (take_cols r U))) (fin Y))"
    using U(2) by (intro matmul_fits) simp
  have T: "matmul (mprod (adjoint (fin (take_cols r U))) (fin Y)) VD = Inr T_tilda"
    unfolding T_tilda_def using V(3) by (intro matmul_fits) (simp add: VD_def)
  have Yvl: "matmul (fin Y) VD = Inr (mprod (fin Y) VD)"
    using V(3) by (intro matmul_fits) (simp add: VD_def)
  show "modes lib X Y eps =
           then_do (lib_eig lib T_tilda) (\<lambda>(eig_vals, right).
           then_do (lib_inv lib right) (\<lambda>right_inv.
           then_do (matmul (mprod (fin Y) VD) right) (\<lambda>right.
           then_do (matmul (fin (take_cols r U)) (adjoint right_inv)) (\<lambda>left.
             Inr (eig_vals, right, left)))))"
    unfolding modes_def
    by (simp only: svd then_do_Inr prod.case Let_def r_def [symmetric] uY vl T Yvl)
  show "nrows T_tilda = r" using U(1) r by (simp add: T_tilda_def)
  show "ncols T_tilda = r" using V(2) r by (simp add: T_tilda_def VD_def diag_def)
qed

lemma design_two_steps:
  "design enforce [[[[a]], [[b]]]] 1 = Inr (Mat 1 1 [[a]], Mat 1 1 [[b]])"
proof -
  have "rect4 1 2 1 1 [[[[a]], [[b]]]]" by (simp add: rect4_def rect3_def rect2_def)
  from design_eq [OF this, of 1 enforce] show ?thesis
    by (simp add: samples_def embedded_def)
qed

lemma design_four_steps:
  "design enforce [[[[a]], [[b]], [[c]], [[d]]]] 2 =
     Inr (Mat 2 2 [[a, b], [b, c]], Mat 2 2 [[b, c], [c, d]])"
proof -
  have "rect4 1 4 1 1 [[[[a]], [[b]], [[c]], [[d]]]]" by (simp add: rect4_def rect3_def rect2_def)
  from design_eq [OF this, of 2 enforce] show ?thesis
    by (simp add: samples_def embedded_def upt_2)
qed

lemma fsum_None: "None \<in> set xs \<Longrightarrow> fsum xs = None"
  by (induction xs) (auto simp: fsum_def fadd_def split: option.splits)

lemma fsum_guarded:
  "fsum (map (\<lambda>k. if P k then None else Some (g k)) ks) =
     (if \<exists>k \<in> set ks. P k then None else Some (sum_list (map g ks)))"
proof (cases "\<exists>k \<in> set ks. P k")
  case True
  then have "None \<in> set (map (\<lambda>k. if P k then None else Some (g k)) ks)" by force
  then show ?thesis using True by (simp add: fsum_None)
next
  case False
  then have "map (\<lambda>k. if P k then None else Some (g k)) ks = map (\<lambda>k. Some (g k)) ks"
    by (intro map_cong) auto
  then have "fsum (map (\<lambda>k. if P k then None else Some (g k)) ks) = Some (sum_list (map g ks))"
    by (simp only: fsum_map_Some)
  then show ?thesis using False by simp
qed

lemma take_cols_entry:
  assumes "wf_mat A" "i < nrows A" "j < r" "j < ncols A"
  shows "entry (fin (take_cols r A)) i j = Some (entry A i j)"
  using assms by (simp add: fin_def take_cols_def entry_def wf_mat_def list_all_iff)

lemma mprod_entry:
  "i < nrows A \<Longrightarrow> j < ncols B \<Longrightarrow>
     entry (mprod A B) i j = fsum (map (\<lambda>k. fmul (entry A i k) (entry B k j)) [0..<ncols A])"
  by (simp add: mprod_def)

lemma adjoint_entry:
  "i < ncols A \<Longrightarrow> j < nrows A \<Longrightarrow> entry (adjoint A) i j = fcnj (entry A j i)"
  by (simp add: adjoint_def)

lemma scaled_entry:
  assumes "wf_mat V" "ncols V = length sigma" "r \<le> length sigma" "c < nrows V" "k < r"
    and "length w = r"
    and "\<forall>k < r. w ! k = (if sigma ! k = 0 then None
                               else Some (complex_of_real (1 / sigma ! k)))"
  shows "entry (mprod (fin (take_cols r V)) (diag w)) c k =
           (if sigma ! k = 0 then None
            else Some (entry V c k * complex_of_real (1 / sigma ! k)))"
proof -
  have "broadcast fmul (fin (take_cols r V)) (row_vec w) =
      Inr (mprod (fin (take_cols r V)) (diag w))"
    using assms(1,2,3,6) by (intro scale_cols_diag take_cols_wf) simp_all
  moreover have "broadcast fmul (fin (take_cols r V)) (row_vec w) =
      Inr (build (nrows (fin (take_cols r V))) (ncols (fin (take_cols r V)))
             (\<lambda>i j. fmul (entry (fin (take_cols r V)) i j) (w ! j)))"
    using assms(2,3,6) by (intro broadcast_row) simp
  ultimately have "mprod (fin (take_cols r V)) (diag w) =
      build (nrows V) (min r (ncols V))
        (\<lambda>i j. fmul (entry (fin (take_cols r V)) i j) (w ! j))"
    by simp
  moreover have "w ! k = (if sigma ! k = 0 then None
      else Some (complex_of_real (1 / sigma ! k)))"
    using assms(5,7) by simp
  ultimately show ?thesis
    using assms(1-5) by (simp add: take_cols_entry fmul_def)
qed

lemma projected_entry:
  assumes "wf_mat U" "wf_mat Y" "nrows U = nrows Y" "i < r" "i < ncols U" "c < ncols Y"
  shows "entry (mprod (adjoint (fin (take_cols r U))) (fin Y)) i c =
           Some (\<Sum>f\<leftarrow>[0..<nrows Y]. cnj (entry U f i) * entry Y f c)"
proof -
  have "entry (mprod (adjoint (fin (take_cols r U))) (fin Y)) i c =
      fsum (map (\<lambda>f. fmul (entry (adjoint (fin (take_cols r U))) i f) (entry (fin Y) f c))
              [0..<nrows Y])"
    using assms by (simp add: mprod_entry)
  also have "map (\<lambda>f. fmul (entry (adjoint (fin (take_cols r U))) i f) (entry (fin Y) f c))
        [0..<nrows Y] =
      map (\<lambda>f. Some (cnj (entry U f i) * entry Y f c)) [0..<nrows Y]"
    using assms
    by (intro map_cong) (simp_all add: adjoint_entry take_cols_entry fin_entry fcnj_def fmul_def)
  finally show ?thesis by (simp only: fsum_map_Some)
qed

lemma reduced_eq:
  assumes "wf_mat U" "wf_mat V" "wf_mat Y"
    and "ncols U = length sigma" "ncols V = length sigma"
    and "nrows U = nrows Y" "nrows V = ncols Y"
    and "r \<le> length sigma" "1 \<le> ncols Y"
    and "length w = r"
    and "\<forall>k < r. w ! k = (if sigma ! k = 0 then None
                               else Some (complex_of_real (1 / sigma ! k)))"
  shows "mprod (mprod (adjoint (fin (take_cols r U))) (fin Y))
           (mprod (fin (take_cols r V)) (diag w)) =
         spec_reduced U Y V sigma r"
proof -
  let ?A = "mprod (adjoint (fin (take_cols r U))) (fin Y)"
  let ?VD = "mprod (fin (take_cols r V)) (diag w)"
  have dims: "nrows ?A = r" "ncols ?A = ncols Y" "ncols ?VD = r"
    using assms(4,5,8,10) by (simp_all add: diag_def)
  have "mprod ?A ?VD =
      build r r (\<lambda>i j. fsum (map (\<lambda>c. fmul (entry ?A i c) (entry ?VD c j)) [0..<ncols Y]))"
    unfolding mprod_def [of ?A ?VD] dims ..
  also have "\<dots> = build r r (\<lambda>i j. if sigma ! j = 0 then None
      else Some (\<Sum>c\<leftarrow>[0..<ncols Y].
                   (\<Sum>f\<leftarrow>[0..<nrows Y]. cnj (entry U f i) * entry Y f c) *
                   (entry V c j * complex_of_real (1 / sigma ! j))))"
  proof (rule build_cong)
    fix i j assume i: "i < r" and j: "j < r"
    have "map (\<lambda>c. fmul (entry ?A i c) (entry ?VD c j)) [0..<ncols Y] =
        map (\<lambda>c. if sigma ! j = 0 then None
                  else Some ((\<Sum>f\<leftarrow>[0..<nrows Y]. cnj (entry U f i) * entry Y f c) *
                             (entry V c j * complex_of_real (1 / sigma ! j))))
          [0..<ncols Y]"
    proof (rule map_cong [OF refl])
      fix c assume "c \<in> set [0..<ncols Y]"
      then have c: "c < ncols Y" by simp
      have a: "entry ?A i c = Some (\<Sum>f\<leftarrow>[0..<nrows Y]. cnj (entry U f i) * entry Y f c)"
        using assms(1,3,4,6,8) i c by (intro projected_entry) simp_all
      have b: "entry ?VD c j = (if sigma ! j = 0 then None
            else Some (entry V c j * complex_of_real (1 / sigma ! j)))"
        using assms(2,5,7,8) c j assms(10,11) by (intro scaled_entry) simp_all
      show "fmul (entry ?A i c) (entry ?VD c j) =
          (if sigma ! j = 0 then None
           else Some ((\<Sum>f\<leftarrow>[0..<nrows Y]. cnj (entry U f i) * entry Y f c) *
                      (entry V c j * complex_of_real (1 / sigma ! j))))"
        unfolding a b by (simp add: fmul_def)
    qed
    moreover have "(\<exists>c \<in> set [0..<ncols Y]. sigma ! j = 0) = (sigma ! j = 0)"
    proof -
      have "0 \<in> set [0..<ncols Y]" using assms(9) by simp
      then show ?thesis by blast
    qed
    ultimately show "fsum (map (\<lambda>c. fmul (entry ?A i c) (entry ?VD c j)) [0..<ncols Y]) =
        (if sigma ! j = 0 then None
         else Some (\<Sum>c\<leftarrow>[0..<ncols Y].
                      (\<Sum>f\<leftarrow>[0..<nrows Y]. cnj (entry U f i) * entry Y f c) *
                      (entry V c j * complex_of_real (1 / sigma ! j))))"
      by (simp only: fsum_guarded)
  qed
  also have "\<dots> = spec_reduced U Y V sigma r"
    by (simp add: spec_reduced_def build_def)
  finally show ?thesis .
qed

lemma lifted_entry:
  assumes "wf_mat V" "wf_mat Y" "ncols V = length sigma" "nrows V = ncols Y"
    and "r \<le> length sigma" "1 \<le> ncols Y" "f < nrows Y" "k < r"
    and "length w = r"
    and "\<forall>k < r. w ! k = (if sigma ! k = 0 then None
                               else Some (complex_of_real (1 / sigma ! k)))"
  shows "entry (mprod (fin Y) (mprod (fin (take_cols r V)) (diag w))) f k =
           (if sigma ! k = 0 then None
            else Some (\<Sum>c\<leftarrow>[0..<ncols Y].
                         entry Y f c * (entry V c k * complex_of_real (1 / sigma ! k))))"
proof -
  let ?VD = "mprod (fin (take_cols r V)) (diag w)"
  have "ncols ?VD = r" using assms(9) by (simp add: diag_def)
  then have "entry (mprod (fin Y) ?VD) f k =
      fsum (map (\<lambda>c. fmul (entry (fin Y) f c) (entry ?VD c k)) [0..<ncols Y])"
    using assms(7,8) by (simp add: mprod_entry)
  also have "map (\<lambda>c. fmul (entry (fin Y) f c) (entry ?VD c k)) [0..<ncols Y] =
      map (\<lambda>c. if sigma ! k = 0 then None
                else Some (entry Y f c * (entry V c k * complex_of_real (1 / sigma ! k))))
        [0..<ncols Y]"
  proof (rule map_cong [OF refl])
    fix c assume "c \<in> set [0..<ncols Y]"
    then have c: "c < ncols Y" by simp
    have b: "entry ?VD c k = (if sigma ! k = 0 then None
          else Some (entry V c k * complex_of_real (1 / sigma ! k)))"
      using assms(1,3,4,5,8) c assms(9,10) by (intro scaled_entry) simp_all
    show "fmul (entry (fin Y) f c) (entry ?VD c k) =
        (if sigma ! k = 0 then None
         else Some (entry Y f c * (entry V c k * complex_of_real (1 / sigma ! k))))"
      unfolding b using assms(2,7) c by (simp add: fin_entry fmul_def)
  qed
  finally have e: "entry (mprod (fin Y) ?VD) f k =
      fsum (map (\<lambda>c. if sigma ! k = 0 then None
                      else Some (entry Y f c * (entry V c k * complex_of_real (1 / sigma ! k))))
              [0..<ncols Y])" .
  have "0 \<in> set [0..<ncols Y]" using assms(6) by simp
  then have "(\<exists>c \<in> set [0..<ncols Y]. sigma ! k = 0) = (sigma ! k = 0)" by blast
  with e show ?thesis by (simp only: fsum_guarded)
qed

lemma retained_zero:
  assumes "r \<le> length sigma"
  shows "(\<exists>k \<in> set [0..<r]. sigma ! k = (0::real)) = (0 \<in> set (take r sigma))"
proof -
  have "(0 \<in> set (take r sigma)) = (\<exists>k < length (take r sigma). take r sigma ! k = 0)"
    by (simp add: in_set_conv_nth)
  also have "\<dots> = (\<exists>k < r. sigma ! k = 0)" using assms by auto
  finally show ?thesis by auto
qed

lemma right_eq:
  assumes "wf_mat V" "wf_mat Y" "wf_mat R_tilda"
    and "ncols V = length sigma" "nrows V = ncols Y"
    and "r \<le> length sigma" "1 \<le> ncols Y" "nrows R_tilda = r"
    and "length w = r"
    and "\<forall>k < r. w ! k = (if sigma ! k = 0 then None
                               else Some (complex_of_real (1 / sigma ! k)))"
  shows "mprod (mprod (fin Y) (mprod (fin (take_cols r V)) (diag w)))
           (fin R_tilda) =
         spec_right Y V sigma r R_tilda"
proof -
  let ?VD = "mprod (fin (take_cols r V)) (diag w)"
  let ?B = "mprod (fin Y) ?VD"
  have dims: "nrows ?B = nrows Y" "ncols ?B = r" "ncols (fin R_tilda) = ncols R_tilda"
    using assms(9) by (simp_all add: diag_def)
  have "mprod ?B (fin R_tilda) =
      build (nrows Y) (ncols R_tilda)
        (\<lambda>f j. fsum (map (\<lambda>k. fmul (entry ?B f k) (entry (fin R_tilda) k j)) [0..<r]))"
    unfolding mprod_def [of ?B "fin R_tilda"] dims ..
  also have "\<dots> = build (nrows Y) (ncols R_tilda)
      (\<lambda>f j. if 0 \<in> set (take r sigma) then None
              else Some (\<Sum>k\<leftarrow>[0..<r].
                           (\<Sum>c\<leftarrow>[0..<ncols Y].
                              entry Y f c * (entry V c k * complex_of_real (1 / sigma ! k))) *
                           entry R_tilda k j))"
  proof (rule build_cong)
    fix f j assume f: "f < nrows Y" and j: "j < ncols R_tilda"
    have "map (\<lambda>k. fmul (entry ?B f k) (entry (fin R_tilda) k j)) [0..<r] =
        map (\<lambda>k. if sigma ! k = 0 then None
                  else Some ((\<Sum>c\<leftarrow>[0..<ncols Y].
                                entry Y f c * (entry V c k * complex_of_real (1 / sigma ! k))) *
                             entry R_tilda k j))
          [0..<r]"
    proof (rule map_cong [OF refl])
      fix k assume "k \<in> set [0..<r]"
      then have k: "k < r" by simp
      have a: "entry ?B f k = (if sigma ! k = 0 then None
            else Some (\<Sum>c\<leftarrow>[0..<ncols Y].
                         entry Y f c * (entry V c k * complex_of_real (1 / sigma ! k))))"
        using assms(1,2,4,5,6,7) f k assms(9,10) by (intro lifted_entry) simp_all
      show "fmul (entry ?B f k) (entry (fin R_tilda) k j) =
          (if sigma ! k = 0 then None
           else Some ((\<Sum>c\<leftarrow>[0..<ncols Y].
                         entry Y f c * (entry V c k * complex_of_real (1 / sigma ! k))) *
                      entry R_tilda k j))"
        unfolding a using assms(3,8) k j by (simp add: fin_entry fmul_def)
    qed
    then show "fsum (map (\<lambda>k. fmul (entry ?B f k) (entry (fin R_tilda) k j)) [0..<r]) =
        (if 0 \<in> set (take r sigma) then None
         else Some (\<Sum>k\<leftarrow>[0..<r].
                      (\<Sum>c\<leftarrow>[0..<ncols Y].
                         entry Y f c * (entry V c k * complex_of_real (1 / sigma ! k))) *
                      entry R_tilda k j))"
      by (simp only: fsum_guarded retained_zero [OF assms(6)])
  qed
  also have "\<dots> = spec_right Y V sigma r R_tilda"
    by (simp add: spec_right_def build_def)
  finally show ?thesis .
qed

lemma left_eq:
  assumes "wf_mat U" "wf_mat R_inv" "ncols U = length sigma" "r \<le> length sigma"
    and "ncols R_inv = r"
  shows "mprod (fin (take_cols r U)) (adjoint (fin R_inv)) = spec_left U r R_inv"
proof -
  have dims: "nrows (fin (take_cols r U)) = nrows U" "ncols (fin (take_cols r U)) = r"
    "ncols (adjoint (fin R_inv)) = nrows R_inv"
    using assms(3,4) by simp_all
  have "mprod (fin (take_cols r U)) (adjoint (fin R_inv)) =
      build (nrows U) (nrows R_inv)
        (\<lambda>f j. fsum (map (\<lambda>k. fmul (entry (fin (take_cols r U)) f k)
                                    (entry (adjoint (fin R_inv)) k j)) [0..<r]))"
    unfolding mprod_def [of "fin (take_cols r U)" "adjoint (fin R_inv)"] dims ..
  also have "\<dots> = build (nrows U) (nrows R_inv)
      (\<lambda>f j. Some (\<Sum>k\<leftarrow>[0..<r]. entry U f k * cnj (entry R_inv j k)))"
  proof (rule build_cong)
    fix f j assume f: "f < nrows U" and j: "j < nrows R_inv"
    have "map (\<lambda>k. fmul (entry (fin (take_cols r U)) f k) (entry (adjoint (fin R_inv)) k j))
          [0..<r] =
        map (\<lambda>k. Some (entry U f k * cnj (entry R_inv j k))) [0..<r]"
      using assms f j
      by (intro map_cong)
        (simp_all add: take_cols_entry adjoint_entry fin_entry fcnj_def fmul_def)
    then show "fsum (map (\<lambda>k. fmul (entry (fin (take_cols r U)) f k)
                                   (entry (adjoint (fin R_inv)) k j)) [0..<r]) =
        Some (\<Sum>k\<leftarrow>[0..<r]. entry U f k * cnj (entry R_inv j k))"
      by (simp only: fsum_map_Some)
  qed
  also have "\<dots> = spec_left U r R_inv"
    by (simp add: spec_left_def build_def)
  finally show ?thesis .
qed

lemma design_shapes:
  assumes "rect4 bs n m m trajectories" and "1 \<le> bs" and "1 \<le> K" and "K \<le> int n - 1"
    and "design enforce trajectories K = Inr (X, Y)"
  shows "wf_mat X" "wf_mat Y" "nrows Y = nrows X" "ncols Y = ncols X" "1 \<le> ncols Y"
proof -
  have "design enforce trajectories K =
      Inr (samples 0 (nat K * (m * m)) bs (n - nat K) (embedded trajectories (nat K) (n - nat K)),
           samples 1 (nat K * (m * m)) bs (n - nat K) (embedded trajectories (nat K) (n - nat K)))"
    using assms(1-4) by (rule design_eq)
  with assms(5) have
    X: "X = samples 0 (nat K * (m * m)) bs (n - nat K) (embedded trajectories (nat K) (n - nat K))"
    and
    Y: "Y = samples 1 (nat K * (m * m)) bs (n - nat K) (embedded trajectories (nat K) (n - nat K))"
    by simp_all
  show "wf_mat X" "wf_mat Y" unfolding X Y by (rule samples_wf)+
  show "nrows Y = nrows X" "ncols Y = ncols X" unfolding X Y by (simp_all add: samples_def)
  have "1 \<le> n - nat K" using assms(3,4) by linarith
  then have "1 \<le> bs * (n - nat K)" using assms(2) by (simp add: Suc_le_eq)
  then show "1 \<le> ncols Y" unfolding Y by (simp add: samples_def)
qed

text \<open>
  C1. For trajectories of shape \<open>(bs, n, m, m)\<close>, \<open>1 \<le> K \<le> n - 1\<close> and any tolerance \<open>eps\<close>,
  \<open>dmd\<close> follows the exact-DMD pipeline. With \<open>(\<sigma>, U, V)\<close> the library's SVD of the design
  matrix \<open>X\<close>, the retained rank \<open>r\<close> is the number of singular values strictly above
  \<open>eps\<close>. The matrix handed to the eigensolver is \<open>spec_reduced\<close>, that is
  \<open>U\<^sup>H Y V diag(1/\<sigma>)\<close> on the first \<open>r\<close> columns and values, of shape \<open>r \<times> r\<close>. With
  \<open>(eig_vals, R_tilda)\<close> what the eigensolver returns for it and \<open>R_inv\<close> what the inverse
  returns for \<open>R_tilda\<close>, the modes before normalisation are \<open>Y V diag(1/\<sigma>) R_tilda\<close> and
  \<open>U (R_inv)\<^sup>H\<close>, and \<open>dmd\<close> returns \<open>eig_vals\<close> with those two matrices normalised. The shapes
  assumed of \<open>U\<close>, \<open>V\<close>, \<open>R_tilda\<close> and \<open>R_inv\<close> are the contract of the library kernels.
\<close>

theorem dmd_pipeline:
  fixes lib :: linalg and eps :: real and sigma :: "real list" and U V X Y :: "complex mat"
  defines "r \<equiv> length (filter (\<lambda>x. eps < x) sigma)"
  assumes "rect4 bs n m m trajectories" and "1 \<le> bs" and "1 \<le> K" and "K \<le> int n - 1"
    and "design enforce trajectories K = Inr (X, Y)"
    and "lib_svd lib X = Inr (sigma, U, V)"
    and "wf_mat U" and "wf_mat V"
    and "ncols U = length sigma" and "ncols V = length sigma"
    and "nrows U = nrows X" and "nrows V = ncols X"
    and "lib_eig lib (spec_reduced U Y V sigma r) = Inr (eig_vals, fin R_tilda)"
    and "wf_mat R_tilda" and "nrows R_tilda = r"
    and "lib_inv lib (fin R_tilda) = Inr (fin R_inv)"
    and "wf_mat R_inv" and "ncols R_inv = r"
  shows "modes lib X Y eps =
           Inr (eig_vals, spec_right Y V sigma r R_tilda, spec_left U r R_inv) \<and>
         dmd lib enforce trajectories K eps =
           then_do (normalize_modes (spec_right Y V sigma r R_tilda) (spec_left U r R_inv))
             (\<lambda>(right, left). Inr (eig_vals, right, left))"
proof -
  note sh = design_shapes [OF assms(2-6)]
  have r: "count_above eps sigma = r" by (simp add: r_def count_above_filter)
  have le: "r \<le> length sigma" by (simp add: r_def)
  have weights: "length (map recip (take r sigma)) = r"
    "\<forall>k < r. map recip (take r sigma) ! k =
       (if sigma ! k = 0 then None else Some (complex_of_real (1 / sigma ! k)))"
    using le by (simp_all add: recip_def)
  let ?VD = "mprod (fin (take_cols r V)) (diag (map recip (take r sigma)))"
  have V: "nrows V = ncols Y" and U: "nrows U = nrows Y"
    using assms(12,13) sh(3,4) by simp_all
  have T: "mprod (mprod (adjoint (fin (take_cols r U))) (fin Y)) ?VD = spec_reduced U Y V sigma r"
    using assms(8,9) sh(2) assms(10,11) U V le sh(5) weights by (rule reduced_eq)
  have R: "matmul (mprod (fin Y) ?VD) (fin R_tilda) = Inr (spec_right Y V sigma r R_tilda)"
  proof -
    have "ncols (mprod (fin Y) ?VD) = nrows (fin R_tilda)"
      using le assms(16) by (simp add: diag_def)
    then have "matmul (mprod (fin Y) ?VD) (fin R_tilda) =
        Inr (mprod (mprod (fin Y) ?VD) (fin R_tilda))"
      by (rule matmul_fits)
    also have "mprod (mprod (fin Y) ?VD) (fin R_tilda) = spec_right Y V sigma r R_tilda"
      using assms(9) sh(2) assms(15,11) V le sh(5) assms(16) weights by (rule right_eq)
    finally show ?thesis .
  qed
  have L: "matmul (fin (take_cols r U)) (adjoint (fin R_inv)) = Inr (spec_left U r R_inv)"
  proof -
    have "ncols (fin (take_cols r U)) = nrows (adjoint (fin R_inv))"
      using le assms(10,19) by simp
    then have "matmul (fin (take_cols r U)) (adjoint (fin R_inv)) =
        Inr (mprod (fin (take_cols r U)) (adjoint (fin R_inv)))"
      by (rule matmul_fits)
    also have "mprod (fin (take_cols r U)) (adjoint (fin R_inv)) = spec_left U r R_inv"
      using assms(8,18,10) le assms(19) by (rule left_eq)
    finally show ?thesis .
  qed
  have m: "modes lib X Y eps =
      Inr (eig_vals, spec_right Y V sigma r R_tilda, spec_left U r R_inv)"
    unfolding modes_upto_eig(1) [OF assms(7,9,11) V assms(10) U, of eps] r T
    by (simp only: assms(14,17) then_do_Inr prod.case R L)
  have "dmd lib enforce trajectories K eps =
      then_do (normalize_modes (spec_right Y V sigma r R_tilda) (spec_left U r R_inv))
        (\<lambda>(right, left). Inr (eig_vals, right, left))"
    unfolding dmd_def by (simp only: assms(6) m then_do_Inr prod.case)
  with m show ?thesis by simp
qed

lemma rows_build: "rows (build nr nc f) = map (\<lambda>i. map (f i) [0..<nc]) [0..<nr]"
  by (simp add: build_def)

lemma normalize_modes_eq:
  assumes "wf_mat R" and "wf_mat L" and "nrows L = nrows R" and "ncols L = ncols R"
  shows "normalize_modes (fin R) (fin L) =
           Inr (build (nrows R) (ncols R)
                  (\<lambda>f j. fdiv (Some (entry R f j)) (Some (csqrt (mode_norm R L j)))),
                build (nrows R) (ncols R)
                  (\<lambda>f j. fdiv (Some (entry L f j)) (Some (cnj (csqrt (mode_norm R L j))))))"
proof -
  define F where "F = nrows R"
  define r where "r = ncols R"
  define prods where "prods = build r F (\<lambda>j f. Some (cnj (entry L f j) * entry R f j))"
  define norm where "norm = map (\<lambda>j. Some (csqrt (mode_norm R L j))) [0..<r]"
  have "broadcast fmul (adjoint (fin L)) (matrix_transpose (fin R)) =
      Inr (build r F (\<lambda>j f. fmul (entry (adjoint (fin L)) j f)
                               (entry (matrix_transpose (fin R)) j f)))"
    using broadcast_same [of "adjoint (fin L)" "matrix_transpose (fin R)" fmul] assms(3,4)
    by (simp add: matrix_transpose_def F_def r_def)
  also have "build r F (\<lambda>j f. fmul (entry (adjoint (fin L)) j f)
                               (entry (matrix_transpose (fin R)) j f)) = prods"
    unfolding prods_def
  proof (rule build_cong)
    fix j f assume "j < r" "f < F"
    then show "fmul (entry (adjoint (fin L)) j f) (entry (matrix_transpose (fin R)) j f) =
        Some (cnj (entry L f j) * entry R f j)"
      using assms
      by (simp add: adjoint_def matrix_transpose_def fin_entry fcnj_def fmul_def F_def r_def)
  qed
  finally have s1: "broadcast fmul (adjoint (fin L)) (matrix_transpose (fin R)) = Inr prods" .
  have "map fsum (rows prods) = map (\<lambda>j. Some (mode_norm R L j)) [0..<r]"
    by (simp add: prods_def rows_build fsum_map_Some mode_norm_def F_def
        interv_sum_list_conv_sum_set_nat)
  then have s2: "map fsqrt (map fsum (rows prods)) = norm"
    by (simp add: norm_def fsqrt_def)
  have len: "length norm = r" by (simp add: norm_def)
  have "broadcast fdiv (fin R) (row_vec norm) =
      Inr (build (nrows (fin R)) (ncols (fin R)) (\<lambda>f j. fdiv (entry (fin R) f j) (norm ! j)))"
    using len by (intro broadcast_row) (simp add: r_def)
  also have "build (nrows (fin R)) (ncols (fin R)) (\<lambda>f j. fdiv (entry (fin R) f j) (norm ! j)) =
      build (nrows R) (ncols R) (\<lambda>f j. fdiv (Some (entry R f j)) (Some (csqrt (mode_norm R L j))))"
    unfolding fin_simps
    by (rule build_cong) (simp add: fin_entry assms(1) norm_def r_def)
  finally have s3: "broadcast fdiv (fin R) (row_vec norm) =
      Inr (build (nrows R) (ncols R)
             (\<lambda>f j. fdiv (Some (entry R f j)) (Some (csqrt (mode_norm R L j)))))" .
  have "broadcast fdiv (fin L) (row_vec (map fcnj norm)) =
      Inr (build (nrows (fin L)) (ncols (fin L))
             (\<lambda>f j. fdiv (entry (fin L) f j) (map fcnj norm ! j)))"
    using len assms(4) by (intro broadcast_row) (simp add: r_def)
  also have "build (nrows (fin L)) (ncols (fin L))
        (\<lambda>f j. fdiv (entry (fin L) f j) (map fcnj norm ! j)) =
      build (nrows R) (ncols R)
        (\<lambda>f j. fdiv (Some (entry L f j)) (Some (cnj (csqrt (mode_norm R L j)))))"
    unfolding fin_simps assms(3,4)
    by (rule build_cong) (simp add: fin_entry assms(2,3,4) norm_def r_def fcnj_def)
  finally have s4: "broadcast fdiv (fin L) (row_vec (map fcnj norm)) =
      Inr (build (nrows R) (ncols R)
             (\<lambda>f j. fdiv (Some (entry L f j)) (Some (cnj (csqrt (mode_norm R L j))))))" .
  show ?thesis
    unfolding normalize_modes_def
    by (simp only: s1 then_do_Inr Let_def s2 s3 s4)
qed

lemma fin_build: "fin (build nr nc f) = build nr nc (\<lambda>i j. Some (f i j))"
  by (simp add: fin_def build_def comp_def)

lemma mode_norm_scaled:
  assumes "s \<noteq> 0" and "s = (\<Sum>f = 0..<F. cnj (l f) * r f)"
  shows "(\<Sum>f = 0..<F. cnj (l f / cnj (csqrt s)) * (r f / csqrt s)) = 1"
proof -
  have n: "csqrt s * csqrt s = s" using power2_csqrt [of s] by (simp add: power2_eq_square)
  have "(\<Sum>f = 0..<F. cnj (l f / cnj (csqrt s)) * (r f / csqrt s)) =
      (\<Sum>f = 0..<F. cnj (l f) * r f / s)"
    by (intro sum.cong refl) (simp add: n)
  also have "\<dots> = (\<Sum>f = 0..<F. cnj (l f) * r f) / s"
    by (simp add: sum_divide_distrib)
  also have "\<dots> = 1" using assms by simp
  finally show ?thesis .
qed

text \<open>
  C4. Where \<open>dmd\<close> reaches the normalisation with finite modes \<open>R\<close> and \<open>L\<close> (both
  \<open>features \<times> r\<close>) and every \<open>mode_norm R L j = \<Sum>\<^sub>f conj(L[f, j]) R[f, j]\<close> is not zero, it
  returns column \<open>j\<close> of \<open>R\<close> divided by \<open>norm\<^sub>j = sqrt(mode_norm R L j)\<close> and column \<open>j\<close> of
  \<open>L\<close> divided by \<open>conj(norm\<^sub>j)\<close>, and the returned pair satisfies
  \<open>\<Sum>\<^sub>f conj(L'[f, j]) R'[f, j] = 1\<close> for every mode \<open>j\<close>.
\<close>

theorem dmd_biorthogonal:
  assumes "design enforce trajectories K = Inr (X, Y)"
    and "modes lib X Y eps = Inr (eig_vals, fin R, fin L)"
    and "wf_mat R" and "wf_mat L" and "nrows L = nrows R" and "ncols L = ncols R"
    and "\<forall>j < ncols R. mode_norm R L j \<noteq> 0"
  shows "\<exists>R' L'. dmd lib enforce trajectories K eps = Inr (eig_vals, fin R', fin L') \<and>
           nrows R' = nrows R \<and> ncols R' = ncols R \<and>
           nrows L' = nrows R \<and> ncols L' = ncols R \<and>
           (\<forall>j < ncols R.
              (\<forall>f < nrows R.
                 entry R' f j = entry R f j / csqrt (mode_norm R L j) \<and>
                 entry L' f j = entry L f j / cnj (csqrt (mode_norm R L j))) \<and>
              mode_norm R' L' j = 1)"
proof -
  define R' where
    "R' = build (nrows R) (ncols R) (\<lambda>f j. entry R f j / csqrt (mode_norm R L j))"
  define L' where
    "L' = build (nrows R) (ncols R) (\<lambda>f j. entry L f j / cnj (csqrt (mode_norm R L j)))"
  have nz: "csqrt (mode_norm R L j) \<noteq> 0" if "j < ncols R" for j
    using assms(7) that by simp
  have r: "build (nrows R) (ncols R)
        (\<lambda>f j. fdiv (Some (entry R f j)) (Some (csqrt (mode_norm R L j)))) = fin R'"
    unfolding R'_def fin_build using nz by (intro build_cong) (simp add: fdiv_def)
  have l: "build (nrows R) (ncols R)
        (\<lambda>f j. fdiv (Some (entry L f j)) (Some (cnj (csqrt (mode_norm R L j))))) = fin L'"
    unfolding L'_def fin_build using nz by (intro build_cong) (simp add: fdiv_def)
  have "normalize_modes (fin R) (fin L) = Inr (fin R', fin L')"
    using normalize_modes_eq [OF assms(3,4,5,6)] by (simp only: r l)
  then have run: "dmd lib enforce trajectories K eps = Inr (eig_vals, fin R', fin L')"
    unfolding dmd_def by (simp only: assms(1,2) then_do_Inr prod.case)
  have one: "mode_norm R' L' j = 1" if j: "j < ncols R" for j
  proof -
    have "mode_norm R' L' j =
        (\<Sum>f = 0..<nrows R. cnj (entry L f j / cnj (csqrt (mode_norm R L j))) *
                              (entry R f j / csqrt (mode_norm R L j)))"
      unfolding mode_norm_def [of R' L'] using j
      by (intro sum.cong) (simp_all add: R'_def L'_def)
    also have "\<dots> = 1"
      using assms(7) j by (intro mode_norm_scaled) (simp_all add: mode_norm_def)
    finally show ?thesis .
  qed
  have "nrows R' = nrows R" "ncols R' = ncols R" "nrows L' = nrows R" "ncols L' = ncols R"
    by (simp_all add: R'_def L'_def)
  moreover have "\<forall>j < ncols R.
      (\<forall>f < nrows R.
         entry R' f j = entry R f j / csqrt (mode_norm R L j) \<and>
         entry L' f j = entry L f j / cnj (csqrt (mode_norm R L j))) \<and>
      mode_norm R' L' j = 1"
    using one by (simp add: R'_def L'_def)
  ultimately show ?thesis using run by blast
qed

text \<open>
  C6, amended. \<open>dmd\<close> does not test \<open>norm\<^sub>j\<close>: when \<open>mode_norm R L j = 0\<close> it divides
  through, raises nothing, and returns column \<open>j\<close> of both eigenvector matrices made of
  entries that are not finite numbers.
\<close>

theorem dmd_zero_norm:
  assumes "design enforce trajectories K = Inr (X, Y)"
    and "modes lib X Y eps = Inr (eig_vals, fin R, fin L)"
    and "wf_mat R" and "wf_mat L" and "nrows L = nrows R" and "ncols L = ncols R"
    and "j < ncols R" and "mode_norm R L j = 0"
  shows "\<exists>R' L'. dmd lib enforce trajectories K eps = Inr (eig_vals, R', L') \<and>
           (\<forall>f < nrows R. entry R' f j = None \<and> entry L' f j = None)"
proof -
  define R' where "R' = build (nrows R) (ncols R)
      (\<lambda>f j. fdiv (Some (entry R f j)) (Some (csqrt (mode_norm R L j))))"
  define L' where "L' = build (nrows R) (ncols R)
      (\<lambda>f j. fdiv (Some (entry L f j)) (Some (cnj (csqrt (mode_norm R L j)))))"
  have "normalize_modes (fin R) (fin L) = Inr (R', L')"
    using normalize_modes_eq [OF assms(3,4,5,6)] by (simp only: R'_def L'_def)
  then have run: "dmd lib enforce trajectories K eps = Inr (eig_vals, R', L')"
    unfolding dmd_def by (simp only: assms(1,2) then_do_Inr prod.case)
  have "\<forall>f < nrows R. entry R' f j = None \<and> entry L' f j = None"
    using assms(7,8) by (simp add: R'_def L'_def fdiv_def)
  with run show ?thesis by blast
qed

lemmas eval_ops = modes_def normalize_modes_def matmul_def broadcast_def bdim_def row_vec_def
  take_cols_def count_above_def recip_def

lemma modes_decay:
  "modes lib_scalar (Mat 1 1 [[1]]) (Mat 1 1 [[0]]) (1 / 10 ^ 5) =
     Inr ([Some 0], fin (Mat 1 1 [[0]]), fin (Mat 1 1 [[1]]))"
  by (simp add: lib_scalar_def eval_ops eval_defs)

text \<open>
  C6 as stated: a zero \<open>norm\<^sub>j\<close> is detected and surfaced as a failure. The trajectory
  \<open>1, 0\<close> (one \<open>1 \<times> 1\<close> matrix per step, \<open>K = 1\<close>) has \<open>X = (1)\<close>, \<open>Y = (0)\<close>, reduced operator
  \<open>(0)\<close> with eigenvalue 0, \<open>R = (0)\<close>, \<open>L = (1)\<close> and \<open>norm = 0\<close>; with a library that is
  exact on \<open>1 \<times> 1\<close> matrices \<open>dmd\<close> returns, and both eigenvectors are non-finite.
\<close>

theorem dmd_zero_norm_counterexample:
  "dmd lib_scalar True [[[[1]], [[0]]]] 1 (1 / 10 ^ 5) =
     Inr ([Some 0], Mat 1 1 [[None]], Mat 1 1 [[None]])"
proof -
  have "normalize_modes (fin (Mat 1 1 [[0]])) (fin (Mat 1 1 [[1]])) =
      Inr (Mat 1 1 [[None]], Mat 1 1 [[None]])"
    by (simp add: eval_ops eval_defs)
  then show ?thesis
    unfolding dmd_def by (simp only: design_two_steps then_do_Inr prod.case modes_decay)
qed

lemma modes_growth:
  "modes lib_scalar (Mat 1 1 [[1]]) (Mat 1 1 [[4]]) (1 / 10 ^ 5) =
     Inr ([Some 4], fin (Mat 1 1 [[4]]), fin (Mat 1 1 [[1]]))"
  by (simp add: lib_scalar_def eval_ops eval_defs)

theorem dmd_biorthogonal_witness:
  "\<exists>R' L'. dmd lib_scalar True [[[[1]], [[4]]]] 1 (1 / 10 ^ 5) = Inr ([Some 4], fin R', fin L') \<and>
      entry R' 0 0 = 2 \<and> entry L' 0 0 = 1 / 2 \<and> mode_norm R' L' 0 = 1"
proof -
  let ?R = "Mat 1 1 [[4]] :: complex mat" and ?L = "Mat 1 1 [[1]] :: complex mat"
  have wf: "wf_mat ?R" "wf_mat ?L" by (simp_all add: wf_mat_def)
  have dims: "nrows ?L = nrows ?R" "ncols ?L = ncols ?R" by simp_all
  have n: "mode_norm ?R ?L 0 = 4" by (simp add: mode_norm_def entry_def)
  then have nz: "\<forall>j < ncols ?R. mode_norm ?R ?L j \<noteq> 0" by simp
  have "csqrt 4 = 2" using csqrt_of_real_nonneg [of 4] by simp
  from dmd_biorthogonal [OF design_two_steps modes_growth wf dims nz, of True]
  obtain R' L' where
    run: "dmd lib_scalar True [[[[1]], [[4]]]] 1 (1 / 10 ^ 5) = Inr ([Some 4], fin R', fin L')"
    and cols: "\<forall>j < ncols ?R.
      (\<forall>f < nrows ?R.
         entry R' f j = entry ?R f j / csqrt (mode_norm ?R ?L j) \<and>
         entry L' f j = entry ?L f j / cnj (csqrt (mode_norm ?R ?L j))) \<and>
      mode_norm R' L' j = 1"
    by blast
  from cols have at0: "(\<forall>f < nrows ?R.
         entry R' f 0 = entry ?R f 0 / csqrt (mode_norm ?R ?L 0) \<and>
         entry L' f 0 = entry ?L f 0 / cnj (csqrt (mode_norm ?R ?L 0))) \<and>
      mode_norm R' L' 0 = 1"
    by simp
  then have "entry R' 0 0 = entry ?R 0 0 / csqrt (mode_norm ?R ?L 0) \<and>
      entry L' 0 0 = entry ?L 0 0 / cnj (csqrt (mode_norm ?R ?L 0))"
    by simp
  then have "entry R' 0 0 = 2 \<and> entry L' 0 0 = 1 / 2"
    unfolding n \<open>csqrt 4 = 2\<close> by (simp add: entry_def)
  with run at0 show ?thesis by blast
qed

theorem dmd_zero_norm_witness:
  "\<exists>R' L'. dmd lib_scalar True [[[[1]], [[0]]]] 1 (1 / 10 ^ 5) = Inr ([Some 0], R', L') \<and>
      entry R' 0 0 = None \<and> entry L' 0 0 = None"
proof -
  let ?R = "Mat 1 1 [[0]] :: complex mat" and ?L = "Mat 1 1 [[1]] :: complex mat"
  have wf: "wf_mat ?R" "wf_mat ?L" by (simp_all add: wf_mat_def)
  have dims: "nrows ?L = nrows ?R" "ncols ?L = ncols ?R" by simp_all
  have j: "0 < ncols ?R" by simp
  have n: "mode_norm ?R ?L 0 = 0" by (simp add: mode_norm_def entry_def)
  from dmd_zero_norm [OF design_two_steps modes_decay wf dims j n, of True]
  obtain R' L' where
    run: "dmd lib_scalar True [[[[1]], [[0]]]] 1 (1 / 10 ^ 5) = Inr ([Some 0], R', L')"
    and col: "\<forall>f < nrows ?R. entry R' f 0 = None \<and> entry L' f 0 = None"
    by blast
  from col have "entry R' 0 0 = None \<and> entry L' 0 0 = None" by simp
  with run show ?thesis by blast
qed

lemmas spec_defs = spec_reduced_def spec_right_def spec_left_def entry_def upt_2

theorem dmd_pipeline_witness:
  "modes lib_rank_one (Mat 2 2 [[16, 12 * \<i>], [12 * \<i>, - 9]])
     (Mat 2 2 [[12 * \<i>, - 9], [- 9, - (27 * \<i> / 4)]]) (1 / 10 ^ 5) =
   Inr ([Some (3 * \<i> / 4)],
        Mat 2 1 [[Some (3 * \<i> / 5)], [Some (- (9 / 20))]],
        Mat 2 1 [[Some (4 / 5)], [Some (3 * \<i> / 5)]])"
proof -
  let ?X = "Mat 2 2 [[16, 12 * \<i>], [12 * \<i>, - 9]] :: complex mat"
  let ?Y = "Mat 2 2 [[12 * \<i>, - 9], [- 9, - (27 * \<i> / 4)]] :: complex mat"
  let ?U = "Mat 2 2 [[4 / 5, 3 * \<i> / 5], [3 * \<i> / 5, 4 / 5]] :: complex mat"
  let ?V = "Mat 2 2 [[4 / 5, - (3 * \<i> / 5)], [- (3 * \<i> / 5), 4 / 5]] :: complex mat"
  let ?s = "[25, 0] :: real list"
  let ?One = "Mat 1 1 [[1]] :: complex mat"
  have shape: "rect4 1 4 1 1 [[[[16]], [[12 * \<i>]], [[- 9]], [[- (27 * \<i> / 4)]]]]"
    by (simp add: rect4_def rect3_def rect2_def)
  have range: "(1::nat) \<le> 1" "(1::int) \<le> 2" "(2::int) \<le> int 4 - 1" by simp_all
  have des: "design True [[[[16]], [[12 * \<i>]], [[- 9]], [[- (27 * \<i> / 4)]]]] 2 = Inr (?X, ?Y)"
    by (rule design_four_steps)
  have svd: "lib_svd lib_rank_one ?X = Inr (?s, ?U, ?V)"
    by (simp add: lib_rank_one_def)
  have wf: "wf_mat ?U" "wf_mat ?V" "wf_mat ?One" by (simp_all add: wf_mat_def)
  have dims: "ncols ?U = length ?s" "ncols ?V = length ?s" "nrows ?U = nrows ?X"
    "nrows ?V = ncols ?X"
    by simp_all
  have r: "length (filter (\<lambda>x. 1 / 10 ^ 5 < x) ?s) = 1" by simp
  have T: "spec_reduced ?U ?Y ?V ?s 1 = Mat 1 1 [[Some (3 * \<i> / 4)]]"
    by (simp add: spec_defs complex_eq_iff)
  have eig: "lib_eig lib_rank_one (spec_reduced ?U ?Y ?V ?s (length (filter (\<lambda>x. 1 / 10 ^ 5 < x) ?s))) =
      Inr ([Some (3 * \<i> / 4)], fin ?One)"
    unfolding r T by (simp add: lib_rank_one_def lib_scalar_def fin_def)
  have inv: "lib_inv lib_rank_one (fin ?One) = Inr (fin ?One)"
    by (simp add: lib_rank_one_def lib_scalar_def fin_def)
  have rank: "nrows ?One = length (filter (\<lambda>x. 1 / 10 ^ 5 < x) ?s)"
    "ncols ?One = length (filter (\<lambda>x. 1 / 10 ^ 5 < x) ?s)"
    by simp_all
  from dmd_pipeline [OF shape range des svd wf(1,2) dims eig wf(3) rank(1) inv wf(3) rank(2)]
  have "modes lib_rank_one ?X ?Y (1 / 10 ^ 5) =
      Inr ([Some (3 * \<i> / 4)],
           spec_right ?Y ?V ?s (length (filter (\<lambda>x. 1 / 10 ^ 5 < x) ?s)) ?One,
           spec_left ?U (length (filter (\<lambda>x. 1 / 10 ^ 5 < x) ?s)) ?One)"
    by blast
  moreover have "spec_right ?Y ?V ?s 1 ?One = Mat 2 1 [[Some (3 * \<i> / 5)], [Some (- (9 / 20))]]"
    by (simp add: spec_defs complex_eq_iff)
  moreover have "spec_left ?U 1 ?One = Mat 2 1 [[Some (4 / 5)], [Some (3 * \<i> / 5)]]"
    by (simp add: spec_defs complex_eq_iff)
  ultimately show ?thesis unfolding r by (simp only:)
qed





section \<open>The pseudoinverse of a batch\<close>

text \<open>
  C9 claims that \<open>pinv\<close> maps a batch of shape \<open>(..., a, b)\<close> to the batch of shape
  \<open>(..., b, a)\<close> of the pseudoinverses of its matrices. On the batch of the two \<open>1 \<times> 1\<close>
  matrices \<open>(2)\<close> and \<open>(4)\<close> the code returns two \<open>2 \<times> 1\<close> matrices, each holding both
  reciprocals, where the pseudoinverses are \<open>(1/2)\<close> and \<open>(1/4)\<close>.
\<close>

theorem pinv_batch_mixes:
  "pinv_batch lib_scalar [Mat 1 1 [[2]], Mat 1 1 [[4]]] (1 / 10 ^ 5) =
     Inr [Mat 2 1 [[Some (1 / 2)], [Some (1 / 4)]], Mat 2 1 [[Some (1 / 2)], [Some (1 / 4)]]] \<and>
   pinv lib_scalar (Mat 1 1 [[2]]) (1 / 10 ^ 5) = Inr (Mat 1 1 [[Some (1 / 2)]]) \<and>
   pinv lib_scalar (Mat 1 1 [[4]]) (1 / 10 ^ 5) = Inr (Mat 1 1 [[Some (1 / 4)]])"
  by (simp add: pinv_batch_def pinv_def lib_scalar_def take_rows_def shape1_def
      matmul_def broadcast_def bdim_def row_vec_def take_cols_def count_above_def recip_def
      eval_defs Let_def numeral_2_eq_2)

end
